theory Spec2Isabelle
  imports Complex_Main "HOL-Library.AList"
begin

section \<open>JavaScript values of the formatter\<close>

text \<open>
  The node \<^verbatim>\<open>LiteLlmFormatter.node.ts\<close> works on untyped JavaScript data. The values it
  can meet are the JSON values, and arrays that carry a named (non-index) property: the
  statement \<^verbatim>\<open>choice.message.annotations = []\<close> creates one when \<^verbatim>\<open>message\<close> is an array.
  An object is the list of its own properties in enumeration order; \<^verbatim>\<open>undefined\<close> is not a
  value here, a property read returns an option.
\<close>

datatype jsvalue =
    JNull
  | JBool bool
  | JNum rat
  | JStr string
  | JArr "jsvalue list" "(string \<times> jsvalue) list"
  | JObj "(string \<times> jsvalue) list"

text \<open>The messages of the \<^verbatim>\<open>NodeOperationError\<close>s the file constructs, one constructor per
  template string, and the errors a call can end with: a \<^verbatim>\<open>NodeOperationError\<close> with its
  \<^verbatim>\<open>itemIndex\<close>, or the \<^verbatim>\<open>TypeError\<close> the JavaScript engine raises.\<close>

datatype message =
    InputFieldNotFound string nat
  | FailedToParseJSON string nat
  | ChoiceWithoutMessage nat
  | NoValidChoicesArray
  | ErrorProcessingItem nat

datatype error =
    NodeOperationError message nat
  | TypeError

text \<open>Truthiness, as \<^verbatim>\<open>if (x)\<close>, \<^verbatim>\<open>!x\<close> and \<^verbatim>\<open>x && y\<close> test it; \<^verbatim>\<open>undefined\<close> is falsy.\<close>

fun truthy :: "jsvalue \<Rightarrow> bool" where
  "truthy JNull = False"
| "truthy (JBool b) = b"
| "truthy (JNum n) = (n \<noteq> 0)"
| "truthy (JStr s) = (s \<noteq> [])"
| "truthy (JArr xs ps) = True"
| "truthy (JObj fs) = True"

fun truthy_opt :: "jsvalue option \<Rightarrow> bool" where
  "truthy_opt None = False"
| "truthy_opt (Some v) = truthy v"

fun isArray :: "jsvalue \<Rightarrow> bool" where
  "isArray (JArr xs ps) = True"
| "isArray v = False"

text \<open>
  \<^verbatim>\<open>JSON.parse(JSON.stringify(data))\<close>: a fresh copy of the value. \<^verbatim>\<open>JSON.stringify\<close> writes
  the elements of an array and none of its named properties, so the copy of an array has
  none.
\<close>

fun deep_clone :: "jsvalue \<Rightarrow> jsvalue" where
  "deep_clone (JArr xs ps) = JArr (map deep_clone xs) []"
| "deep_clone (JObj fs) = JObj (map (\<lambda>(k, v). (k, deep_clone v)) fs)"
| "deep_clone v = v"

text \<open>
  Reading the property \<open>k\<close> of a value, for a name \<open>k\<close> that no built-in prototype
  defines (\<^verbatim>\<open>choices\<close>, \<^verbatim>\<open>message\<close>, \<^verbatim>\<open>tool_calls\<close>, \<^verbatim>\<open>function_call\<close>, \<^verbatim>\<open>annotations\<close>): on
  \<^verbatim>\<open>null\<close> the engine raises a \<^verbatim>\<open>TypeError\<close>, on a boolean, number or string the result is
  \<^verbatim>\<open>undefined\<close>.
\<close>

fun get_prop :: "jsvalue \<Rightarrow> string \<Rightarrow> error + jsvalue option" where
  "get_prop JNull k = Inl TypeError"
| "get_prop (JObj fs) k = Inr (map_of fs k)"
| "get_prop (JArr xs ps) k = Inr (map_of ps k)"
| "get_prop v k = Inr None"

text \<open>
  The assignment \<^verbatim>\<open>target.k = v\<close>. The compiled module is strict-mode code, where creating
  a property on a primitive raises a \<^verbatim>\<open>TypeError\<close>.
\<close>

fun set_prop :: "jsvalue \<Rightarrow> string \<Rightarrow> jsvalue \<Rightarrow> error + jsvalue" where
  "set_prop (JObj fs) k v = Inr (JObj (AList.update k v fs))"
| "set_prop (JArr xs ps) k v = Inr (JArr xs (AList.update k v ps))"
| "set_prop w k v = Inl TypeError"

text \<open>
  The source mutates the object that \<^verbatim>\<open>choice.message\<close> (or \<^verbatim>\<open>clonedData.choices\<close>) refers
  to. In a model of values the holder is rebuilt with the property at its old position.
\<close>

fun with_prop :: "jsvalue \<Rightarrow> string \<Rightarrow> jsvalue \<Rightarrow> jsvalue" where
  "with_prop (JObj fs) k v = JObj (AList.update k v fs)"
| "with_prop (JArr xs ps) k v = JArr xs (AList.update k v ps)"
| "with_prop w k v = w"

section \<open>formatLiteLLMResponse\<close>

text \<open>The three \<^verbatim>\<open>if\<close> statements of lines 169 to 182, on the value of \<^verbatim>\<open>choice.message\<close>.\<close>

definition replace_null_tool_calls :: "jsvalue \<Rightarrow> error + jsvalue" where
  "replace_null_tool_calls m =
     (case get_prop m ''tool_calls'' of
        Inl e \<Rightarrow> Inl e
      | Inr p \<Rightarrow> if p = Some JNull then set_prop m ''tool_calls'' (JArr [] []) else Inr m)"

definition replace_null_function_call :: "jsvalue \<Rightarrow> error + jsvalue" where
  "replace_null_function_call m =
     (case get_prop m ''function_call'' of
        Inl e \<Rightarrow> Inl e
      | Inr p \<Rightarrow> if p = Some JNull then set_prop m ''function_call'' (JObj []) else Inr m)"

definition ensure_annotations :: "jsvalue \<Rightarrow> error + jsvalue" where
  "ensure_annotations m =
     (case get_prop m ''annotations'' of
        Inl e \<Rightarrow> Inl e
      | Inr p \<Rightarrow> if p = Some JNull \<or> p = None
                 then set_prop m ''annotations'' (JArr [] []) else Inr m)"

definition format_message :: "jsvalue \<Rightarrow> error + jsvalue" where
  "format_message m =
     (case replace_null_tool_calls m of
        Inl e \<Rightarrow> Inl e
      | Inr m1 \<Rightarrow>
          (case replace_null_function_call m1 of
             Inl e \<Rightarrow> Inl e
           | Inr m2 \<Rightarrow> ensure_annotations m2))"

text \<open>The body of the loop over \<^verbatim>\<open>clonedData.choices\<close>, at index \<open>i\<close>.\<close>

definition format_choice :: "bool \<Rightarrow> nat \<Rightarrow> nat \<Rightarrow> jsvalue \<Rightarrow> error + jsvalue" where
  "format_choice strictMode itemIndex i choice =
     (case get_prop choice ''message'' of
        Inl e \<Rightarrow> Inl e
      | Inr p \<Rightarrow>
          if truthy_opt p then
            (case format_message (the p) of
               Inl e \<Rightarrow> Inl e
             | Inr m \<Rightarrow> Inr (with_prop choice ''message'' m))
          else if strictMode then
            Inl (NodeOperationError (ChoiceWithoutMessage i) itemIndex)
          else Inr choice)"

text \<open>The loop \<^verbatim>\<open>for (let i = 0; i < clonedData.choices.length; i++)\<close>, from index \<open>i\<close> on.\<close>

fun format_choices :: "bool \<Rightarrow> nat \<Rightarrow> nat \<Rightarrow> jsvalue list \<Rightarrow> error + jsvalue list" where
  "format_choices strictMode itemIndex i [] = Inr []"
| "format_choices strictMode itemIndex i (c # cs) =
     (case format_choice strictMode itemIndex i c of
        Inl e \<Rightarrow> Inl e
      | Inr c' \<Rightarrow>
          (case format_choices strictMode itemIndex (Suc i) cs of
             Inl e \<Rightarrow> Inl e
           | Inr cs' \<Rightarrow> Inr (c' # cs')))"

fun elements :: "jsvalue \<Rightarrow> jsvalue list" where
  "elements (JArr xs ps) = xs"
| "elements v = []"

fun with_elements :: "jsvalue \<Rightarrow> jsvalue list \<Rightarrow> jsvalue" where
  "with_elements (JArr xs ps) ys = JArr ys ps"
| "with_elements v ys = v"

definition formatLiteLLMResponse :: "jsvalue \<Rightarrow> bool \<Rightarrow> nat \<Rightarrow> error + jsvalue" where
  "formatLiteLLMResponse data strictMode itemIndex =
     (let clonedData = deep_clone data in
      case get_prop clonedData ''choices'' of
        Inl e \<Rightarrow> Inl e
      | Inr p \<Rightarrow>
          if truthy_opt p \<and> isArray (the p) then
            (case format_choices strictMode itemIndex 0 (elements (the p)) of
               Inl e \<Rightarrow> Inl e
             | Inr cs \<Rightarrow> Inr (with_prop clonedData ''choices'' (with_elements (the p) cs)))
          else if strictMode then
            Inl (NodeOperationError NoValidChoicesArray itemIndex)
          else Inr clonedData)"

section \<open>execute\<close>

text \<open>
  An \<^verbatim>\<open>INodeExecutionData\<close> record, with the fields the node reads: \<^verbatim>\<open>json\<close> and the
  optional \<^verbatim>\<open>binary\<close> and \<^verbatim>\<open>pairedItem\<close> (\<open>None\<close> when the record has none). The host
  declares \<^verbatim>\<open>pairedItem\<close> as an item index, a lineage object or an array of those, and
  \<^verbatim>\<open>binary\<close> as an object.
\<close>

record INodeExecutionData =
  json :: "(string \<times> jsvalue) list"
  binary :: "jsvalue option"
  pairedItem :: "jsvalue option"

text \<open>The \<^verbatim>\<open>catch\<close> clause of the loop: a \<^verbatim>\<open>NodeOperationError\<close> is thrown again, anything
  else is wrapped.\<close>

fun rethrow :: "nat \<Rightarrow> error \<Rightarrow> error" where
  "rethrow itemIndex (NodeOperationError m ix) = NodeOperationError m ix"
| "rethrow itemIndex TypeError = NodeOperationError (ErrorProcessingItem itemIndex) itemIndex"

text \<open>Lines 115 to 134: the call of \<^verbatim>\<open>formatLiteLLMResponse\<close> and the new record.\<close>

definition format_item ::
  "string \<Rightarrow> bool \<Rightarrow> nat \<Rightarrow> INodeExecutionData \<Rightarrow> jsvalue \<Rightarrow> error + INodeExecutionData" where
  "format_item outputField strictMode itemIndex item inputData =
     (case formatLiteLLMResponse inputData strictMode itemIndex of
        Inl e \<Rightarrow> Inl (rethrow itemIndex e)
      | Inr formattedData \<Rightarrow>
          Inr \<lparr> json = AList.update outputField formattedData (json item),
                binary = (if truthy_opt (binary item) then binary item else None),
                pairedItem = (if truthy_opt (pairedItem item) then pairedItem item else None) \<rparr>)"

text \<open>
  The body of the loop over \<^verbatim>\<open>itemsToProcess\<close>, which ends by pushing one record onto
  \<^verbatim>\<open>returnData\<close> or by throwing. \<open>None\<close> is the \<^verbatim>\<open>undefined\<close> that \<^verbatim>\<open>items[0]\<close> yields on an
  empty input; reading \<^verbatim>\<open>item.json\<close> then raises a \<^verbatim>\<open>TypeError\<close> inside the \<^verbatim>\<open>try\<close>.
  \<open>parse\<close> is the platform's \<^verbatim>\<open>JSON.parse\<close>, \<open>None\<close> when it throws. The read
  \<^verbatim>\<open>item.json[inputField]\<close> is a read of an own property: \<open>inputField\<close> is taken not to be
  the name of a member of \<^verbatim>\<open>Object.prototype\<close>.
\<close>

definition process_item ::
  "(string \<Rightarrow> jsvalue option) \<Rightarrow> string \<Rightarrow> string \<Rightarrow> bool \<Rightarrow> nat \<Rightarrow>
   INodeExecutionData option \<Rightarrow> error + INodeExecutionData" where
  "process_item parse inputField outputField strictMode itemIndex it =
     (case it of
        None \<Rightarrow> Inl (rethrow itemIndex TypeError)
      | Some item \<Rightarrow>
          (let inputData = map_of (json item) inputField in
           if \<not> truthy_opt inputData then
             (if strictMode
              then Inl (NodeOperationError (InputFieldNotFound inputField itemIndex) itemIndex)
              else Inr item)
           else
             (case the inputData of
                JStr s \<Rightarrow>
                  (case parse s of
                     None \<Rightarrow>
                       if strictMode
                       then Inl (NodeOperationError (FailedToParseJSON inputField itemIndex)
                                   itemIndex)
                       else Inr item
                   | Some d \<Rightarrow> format_item outputField strictMode itemIndex item d)
              | d \<Rightarrow> format_item outputField strictMode itemIndex item d)))"

text \<open>The loop \<^verbatim>\<open>for (let itemIndex = 0; itemIndex < itemsToProcess.length; itemIndex++)\<close>,
  from \<open>itemIndex\<close> on; the result is what the loop pushes onto \<^verbatim>\<open>returnData\<close>.\<close>

fun process_items ::
  "(string \<Rightarrow> jsvalue option) \<Rightarrow> string \<Rightarrow> string \<Rightarrow> bool \<Rightarrow> nat \<Rightarrow>
   INodeExecutionData option list \<Rightarrow> error + INodeExecutionData list" where
  "process_items parse inputField outputField strictMode itemIndex [] = Inr []"
| "process_items parse inputField outputField strictMode itemIndex (it # its) =
     (case process_item parse inputField outputField strictMode itemIndex it of
        Inl e \<Rightarrow> Inl e
      | Inr r \<Rightarrow>
          (case process_items parse inputField outputField strictMode (Suc itemIndex) its of
             Inl e \<Rightarrow> Inl e
           | Inr rs \<Rightarrow> Inr (r # rs)))"

fun first_item :: "INodeExecutionData list \<Rightarrow> INodeExecutionData option" where
  "first_item [] = None"
| "first_item (x # xs) = Some x"

text \<open>\<^verbatim>\<open>execute\<close>, with the input records and the four node parameters as arguments.\<close>

definition execute ::
  "(string \<Rightarrow> jsvalue option) \<Rightarrow> string \<Rightarrow> string \<Rightarrow> bool \<Rightarrow> bool \<Rightarrow>
   INodeExecutionData list \<Rightarrow> error + INodeExecutionData list list" where
  "execute parse inputField outputField processAllItems strictMode items =
     (let itemsToProcess = (if processAllItems then map Some items else [first_item items]) in
      case process_items parse inputField outputField strictMode 0 itemsToProcess of
        Inl e \<Rightarrow> Inl e
      | Inr returnData \<Rightarrow>
          Inr [returnData @ (if \<not> processAllItems \<and> length items > 1 then drop 1 items else [])])"

section \<open>The same function on a store\<close>

text \<open>
  The source mutates objects, and whether it touches the caller's document depends on which
  objects are shared. Here a value that is an object or an array is a reference into a
  heap: a list of objects, the address of an object being its index. Allocation appends.
  An address outside the heap does not occur in a JavaScript program; the functions below
  then read nothing and write nothing.
\<close>

type_synonym addr = nat

datatype hvalue = HNull | HBool bool | HNum rat | HStr string | HRef addr

datatype hobject =
    HArray "hvalue list" "(string \<times> hvalue) list"
  | HObject "(string \<times> hvalue) list"

type_synonym heap = "hobject list"

text \<open>The first error of a list of results, or all the values.\<close>

fun sequence :: "(error + 'a) list \<Rightarrow> error + 'a list" where
  "sequence [] = Inr []"
| "sequence (r # rs) =
     (case r of
        Inl e \<Rightarrow> Inl e
      | Inr x \<Rightarrow> (case sequence rs of Inl e \<Rightarrow> Inl e | Inr xs \<Rightarrow> Inr (x # xs)))"

text \<open>
  \<^verbatim>\<open>JSON.stringify\<close>, with the JSON text it returns given as the value the text denotes.
  \<open>stack\<close> holds the objects being written: meeting one of them again is the circular
  structure on which \<^verbatim>\<open>JSON.stringify\<close> raises a \<^verbatim>\<open>TypeError\<close>. It reads the heap only.
\<close>

function stringify :: "heap \<Rightarrow> addr list \<Rightarrow> hvalue \<Rightarrow> error + jsvalue" where
  "stringify h stack HNull = Inr JNull"
| "stringify h stack (HBool b) = Inr (JBool b)"
| "stringify h stack (HNum n) = Inr (JNum n)"
| "stringify h stack (HStr s) = Inr (JStr s)"
| "stringify h stack (HRef a) =
     (if a \<in> set stack \<or> length h \<le> a then Inl TypeError
      else
        (case h ! a of
           HArray xs ps \<Rightarrow>
             (case sequence (map (stringify h (a # stack)) xs) of
                Inl e \<Rightarrow> Inl e
              | Inr ys \<Rightarrow> Inr (JArr ys []))
         | HObject fs \<Rightarrow>
             (case sequence (map (\<lambda>f. stringify h (a # stack) (snd f)) fs) of
                Inl e \<Rightarrow> Inl e
              | Inr ys \<Rightarrow> Inr (JObj (zip (map fst fs) ys)))))"
  by pat_completeness auto
termination
proof (relation "measure (\<lambda>(h, stack, v). card ({..<length h} - set stack))")
  show "wf (measure (\<lambda>(h, stack, v). card ({..<length h} - set stack)))" by simp
next
  fix h :: heap and stack :: "addr list" and a :: addr and ob xs ps x
  assume "\<not> (a \<in> set stack \<or> length h \<le> a)"
  then have "a \<in> {..<length h} - set stack" by simp
  then have "card ({..<length h} - set stack - {a}) < card ({..<length h} - set stack)"
    by (intro card_Diff1_less) simp_all
  moreover have "{..<length h} - set (a # stack) = {..<length h} - set stack - {a}" by auto
  ultimately show "((h, a # stack, x), (h, stack, HRef a)) \<in>
      measure (\<lambda>(h, stack, v). card ({..<length h} - set stack))"
    by simp
next
  fix h :: heap and stack :: "addr list" and a :: addr and ob fs f
  assume "\<not> (a \<in> set stack \<or> length h \<le> a)"
  then have "a \<in> {..<length h} - set stack" by simp
  then have "card ({..<length h} - set stack - {a}) < card ({..<length h} - set stack)"
    by (intro card_Diff1_less) simp_all
  moreover have "{..<length h} - set (a # stack) = {..<length h} - set stack - {a}" by auto
  ultimately show "((h, a # stack, snd f), (h, stack, HRef a)) \<in>
      measure (\<lambda>(h, stack, v). card ({..<length h} - set stack))"
    by simp
qed

text \<open>
  \<^verbatim>\<open>JSON.parse\<close>: every array and object of the text becomes a new object of the heap.
  \<open>build_all\<close> builds the members of a list one after the other.
\<close>

primrec build_all :: "('a \<Rightarrow> heap \<Rightarrow> 'b \<times> heap) \<Rightarrow> 'a list \<Rightarrow> heap \<Rightarrow> 'b list \<times> heap" where
  "build_all f [] h = ([], h)"
| "build_all f (x # xs) h =
     (case f x h of (v, h1) \<Rightarrow> (case build_all f xs h1 of (vs, h2) \<Rightarrow> (v # vs, h2)))"

lemma build_all_cong [fundef_cong]:
  "xs = ys \<Longrightarrow> h = h' \<Longrightarrow> (\<And>x h. x \<in> set ys \<Longrightarrow> f x h = g x h) \<Longrightarrow>
   build_all f xs h = build_all g ys h'"
proof (induction ys arbitrary: xs h h')
  case Nil
  then show ?case by simp
next
  case (Cons y ys)
  then show ?case by (auto split: prod.splits)
qed

fun build :: "jsvalue \<Rightarrow> heap \<Rightarrow> hvalue \<times> heap" where
  "build JNull h = (HNull, h)"
| "build (JBool b) h = (HBool b, h)"
| "build (JNum n) h = (HNum n, h)"
| "build (JStr s) h = (HStr s, h)"
| "build (JArr xs ps) h =
     (case build_all build xs h of
        (vs, h1) \<Rightarrow>
          (case build_all (\<lambda>p g. case build (snd p) g of (v, g') \<Rightarrow> ((fst p, v), g')) ps h1 of
             (qs, h2) \<Rightarrow> (HRef (length h2), h2 @ [HArray vs qs])))"
| "build (JObj fs) h =
     (case build_all (\<lambda>p g. case build (snd p) g of (v, g') \<Rightarrow> ((fst p, v), g')) fs h of
        (gs, h1) \<Rightarrow> (HRef (length h1), h1 @ [HObject gs]))"

text \<open>Truthiness, \<^verbatim>\<open>Array.isArray\<close>, property reads and the assignment \<^verbatim>\<open>target.k = v\<close>, which
  updates the object at the address of \<open>target\<close> in place.\<close>

fun truthy_h :: "hvalue \<Rightarrow> bool" where
  "truthy_h HNull = False"
| "truthy_h (HBool b) = b"
| "truthy_h (HNum n) = (n \<noteq> 0)"
| "truthy_h (HStr s) = (s \<noteq> [])"
| "truthy_h (HRef a) = True"

fun truthy_opt_h :: "hvalue option \<Rightarrow> bool" where
  "truthy_opt_h None = False"
| "truthy_opt_h (Some v) = truthy_h v"

fun properties :: "hobject \<Rightarrow> (string \<times> hvalue) list" where
  "properties (HArray xs ps) = ps"
| "properties (HObject fs) = fs"

fun with_properties :: "hobject \<Rightarrow> (string \<times> hvalue) list \<Rightarrow> hobject" where
  "with_properties (HArray xs ps) qs = HArray xs qs"
| "with_properties (HObject fs) qs = HObject qs"

fun isArray_h :: "heap \<Rightarrow> hvalue \<Rightarrow> bool" where
  "isArray_h h (HRef a) =
     (a < length h \<and> (case h ! a of HArray xs ps \<Rightarrow> True | HObject fs \<Rightarrow> False))"
| "isArray_h h v = False"

fun elements_h :: "heap \<Rightarrow> hvalue \<Rightarrow> hvalue list" where
  "elements_h h (HRef a) =
     (if a < length h then (case h ! a of HArray xs ps \<Rightarrow> xs | HObject fs \<Rightarrow> []) else [])"
| "elements_h h v = []"

fun get_prop_h :: "heap \<Rightarrow> hvalue \<Rightarrow> string \<Rightarrow> error + hvalue option" where
  "get_prop_h h HNull k = Inl TypeError"
| "get_prop_h h (HRef a) k =
     (if a < length h then Inr (map_of (properties (h ! a)) k) else Inr None)"
| "get_prop_h h v k = Inr None"

fun set_prop_h :: "heap \<Rightarrow> hvalue \<Rightarrow> string \<Rightarrow> hvalue \<Rightarrow> error + heap" where
  "set_prop_h h (HRef a) k v =
     Inr (h[a := with_properties (h ! a) (AList.update k v (properties (h ! a)))])"
| "set_prop_h h w k v = Inl TypeError"

text \<open>The statement \<^verbatim>\<open>choice.message.k = []\<close> (or \<^verbatim>\<open>{}\<close>): the literal allocates a new
  object, then the property is assigned. The outcome is the error thrown, if any, and the
  heap.\<close>

definition assign_new :: "hvalue \<Rightarrow> string \<Rightarrow> hobject \<Rightarrow> heap \<Rightarrow> error option \<times> heap" where
  "assign_new m k ob h =
     (let h1 = h @ [ob] in
      case set_prop_h h1 m k (HRef (length h)) of
        Inl e \<Rightarrow> (Some e, h1)
      | Inr h2 \<Rightarrow> (None, h2))"

definition replace_null_tool_calls_h :: "hvalue \<Rightarrow> heap \<Rightarrow> error option \<times> heap" where
  "replace_null_tool_calls_h m h =
     (case get_prop_h h m ''tool_calls'' of
        Inl e \<Rightarrow> (Some e, h)
      | Inr p \<Rightarrow> if p = Some HNull then assign_new m ''tool_calls'' (HArray [] []) h
                 else (None, h))"

definition replace_null_function_call_h :: "hvalue \<Rightarrow> heap \<Rightarrow> error option \<times> heap" where
  "replace_null_function_call_h m h =
     (case get_prop_h h m ''function_call'' of
        Inl e \<Rightarrow> (Some e, h)
      | Inr p \<Rightarrow> if p = Some HNull then assign_new m ''function_call'' (HObject []) h
                 else (None, h))"

definition ensure_annotations_h :: "hvalue \<Rightarrow> heap \<Rightarrow> error option \<times> heap" where
  "ensure_annotations_h m h =
     (case get_prop_h h m ''annotations'' of
        Inl e \<Rightarrow> (Some e, h)
      | Inr p \<Rightarrow> if p = Some HNull \<or> p = None
                 then assign_new m ''annotations'' (HArray [] []) h
                 else (None, h))"

definition format_message_h :: "hvalue \<Rightarrow> heap \<Rightarrow> error option \<times> heap" where
  "format_message_h m h =
     (case replace_null_tool_calls_h m h of
        (Some e, h1) \<Rightarrow> (Some e, h1)
      | (None, h1) \<Rightarrow>
          (case replace_null_function_call_h m h1 of
             (Some e, h2) \<Rightarrow> (Some e, h2)
           | (None, h2) \<Rightarrow> ensure_annotations_h m h2))"

text \<open>
  The body of the loop and the loop. The body assigns to the properties \<^verbatim>\<open>tool_calls\<close>,
  \<^verbatim>\<open>function_call\<close> and \<^verbatim>\<open>annotations\<close> only, so it changes no \<^verbatim>\<open>message\<close> or \<^verbatim>\<open>choices\<close>
  property and no element or length of an array: \<^verbatim>\<open>choice.message\<close> and the elements of
  \<^verbatim>\<open>clonedData.choices\<close> are read once, where the source reads them again at each use.
\<close>

definition format_choice_h ::
  "bool \<Rightarrow> nat \<Rightarrow> nat \<Rightarrow> hvalue \<Rightarrow> heap \<Rightarrow> error option \<times> heap" where
  "format_choice_h strictMode itemIndex i choice h =
     (case get_prop_h h choice ''message'' of
        Inl e \<Rightarrow> (Some e, h)
      | Inr p \<Rightarrow>
          if truthy_opt_h p then format_message_h (the p) h
          else if strictMode then
            (Some (NodeOperationError (ChoiceWithoutMessage i) itemIndex), h)
          else (None, h))"

fun format_choices_h ::
  "bool \<Rightarrow> nat \<Rightarrow> nat \<Rightarrow> hvalue list \<Rightarrow> heap \<Rightarrow> error option \<times> heap" where
  "format_choices_h strictMode itemIndex i [] h = (None, h)"
| "format_choices_h strictMode itemIndex i (c # cs) h =
     (case format_choice_h strictMode itemIndex i c h of
        (Some e, h1) \<Rightarrow> (Some e, h1)
      | (None, h1) \<Rightarrow> format_choices_h strictMode itemIndex (Suc i) cs h1)"

definition formatLiteLLMResponse_h ::
  "hvalue \<Rightarrow> bool \<Rightarrow> nat \<Rightarrow> heap \<Rightarrow> (error + hvalue) \<times> heap" where
  "formatLiteLLMResponse_h data strictMode itemIndex h =
     (case stringify h [] data of
        Inl e \<Rightarrow> (Inl e, h)
      | Inr text \<Rightarrow>
          (case build text h of
             (clonedData, h1) \<Rightarrow>
               (case get_prop_h h1 clonedData ''choices'' of
                  Inl e \<Rightarrow> (Inl e, h1)
                | Inr p \<Rightarrow>
                    if truthy_opt_h p \<and> isArray_h h1 (the p) then
                      (case format_choices_h strictMode itemIndex 0 (elements_h h1 (the p)) h1 of
                         (Some e, h2) \<Rightarrow> (Inl e, h2)
                       | (None, h2) \<Rightarrow> (Inr clonedData, h2))
                    else if strictMode then
                      (Inl (NodeOperationError NoValidChoicesArray itemIndex), h1)
                    else (Inr clonedData, h1))))"

text \<open>The values an object holds, and the addresses a value reaches through them.\<close>

fun values_of :: "hobject \<Rightarrow> hvalue set" where
  "values_of (HArray xs ps) = set xs \<union> snd ` set ps"
| "values_of (HObject fs) = snd ` set fs"

inductive reaches :: "heap \<Rightarrow> hvalue \<Rightarrow> addr \<Rightarrow> bool" for h :: heap where
  here: "reaches h (HRef a) a"
| step: "a < length h \<Longrightarrow> v \<in> values_of (h ! a) \<Longrightarrow> reaches h v b \<Longrightarrow> reaches h (HRef a) b"

text \<open>A heap that holds the document of the scenario at address 3, and the heap after the
  call on it.\<close>

definition sample_heap :: heap where
  "sample_heap =
     [HObject [(''tool_calls'', HNull), (''annotations'', HNull)],
      HObject [(''message'', HRef 0)], HArray [HRef 1] [],
      HObject [(''choices'', HRef 2)]]"

definition sample_heap_after :: heap where
  "sample_heap_after =
     sample_heap @
     [HObject [(''tool_calls'', HRef 8), (''annotations'', HRef 9)],
      HObject [(''message'', HRef 4)], HArray [HRef 5] [],
      HObject [(''choices'', HRef 6)], HArray [] [], HArray [] []]"

text \<open>In the proofs: a value is fresh from \<open>n\<close> when it is no reference to an object below
  \<open>n\<close>; the heap is closed from \<open>n\<close> when the objects from \<open>n\<close> on hold fresh values only;
  a step grows the heap when it keeps the objects below \<open>n\<close> and closedness.\<close>

definition fresh_value :: "nat \<Rightarrow> heap \<Rightarrow> hvalue \<Rightarrow> bool" where
  "fresh_value n h v = (case v of HRef b \<Rightarrow> n \<le> b \<and> b < length h | _ \<Rightarrow> True)"

definition closed_from :: "nat \<Rightarrow> heap \<Rightarrow> bool" where
  "closed_from n h \<longleftrightarrow>
     (\<forall>a. n \<le> a \<and> a < length h \<longrightarrow> (\<forall>v \<in> values_of (h ! a). fresh_value n h v))"

definition grows :: "nat \<Rightarrow> heap \<Rightarrow> heap \<Rightarrow> bool" where
  "grows n h h' \<longleftrightarrow>
     length h \<le> length h' \<and> take n h' = take n h \<and> (closed_from n h \<longrightarrow> closed_from n h')"

text \<open>
  A value of the store read as a tree: \<open>rep h A v t\<close> holds when \<open>v\<close> unfolds in \<open>h\<close> to the
  value \<open>t\<close> of the first embedding, through cells whose addresses lie in \<open>A\<close>, no cell being
  met twice. \<open>rep_list\<close> and \<open>rep_fields\<close> are the same for the elements of an array and for
  the properties of a cell.
\<close>

inductive rep :: "heap \<Rightarrow> addr set \<Rightarrow> hvalue \<Rightarrow> jsvalue \<Rightarrow> bool"
  and rep_list :: "heap \<Rightarrow> addr set \<Rightarrow> hvalue list \<Rightarrow> jsvalue list \<Rightarrow> bool"
  and rep_fields :: "heap \<Rightarrow> addr set \<Rightarrow> (string \<times> hvalue) list \<Rightarrow> (string \<times> jsvalue) list \<Rightarrow> bool"
  for h :: heap where
  rep_null: "rep h A HNull JNull"
| rep_bool: "rep h A (HBool b) (JBool b)"
| rep_num: "rep h A (HNum n) (JNum n)"
| rep_str: "rep h A (HStr s) (JStr s)"
| rep_obj: "a \<in> A \<Longrightarrow> a < length h \<Longrightarrow> h ! a = HObject gs \<Longrightarrow> rep_fields h (A - {a}) gs fs \<Longrightarrow>
            rep h A (HRef a) (JObj fs)"
| rep_arr: "a \<in> A \<Longrightarrow> a < length h \<Longrightarrow> h ! a = HArray vs qs \<Longrightarrow> rep_list h A1 vs xs \<Longrightarrow>
            rep_fields h A2 qs ps \<Longrightarrow> A1 \<inter> A2 = {} \<Longrightarrow> A1 \<union> A2 \<subseteq> A - {a} \<Longrightarrow>
            rep h A (HRef a) (JArr xs ps)"
| rep_nil: "rep_list h A [] []"
| rep_cons: "rep h A1 v x \<Longrightarrow> rep_list h A2 vs xs \<Longrightarrow> A1 \<inter> A2 = {} \<Longrightarrow> A1 \<union> A2 \<subseteq> A \<Longrightarrow>
             rep_list h A (v # vs) (x # xs)"
| rep_fnil: "rep_fields h A [] []"
| rep_fcons: "rep h A1 v x \<Longrightarrow> rep_fields h A2 gs fs \<Longrightarrow> A1 \<inter> A2 = {} \<Longrightarrow> A1 \<union> A2 \<subseteq> A \<Longrightarrow>
              rep_fields h A ((k, v) # gs) ((k, x) # fs)"

text \<open>
  \<open>cell_rep h a F fs\<close>: the properties of the cell at \<open>a\<close> read as \<open>fs\<close>, through cells of \<open>F\<close>.
  \<open>same_but a h h'\<close>: \<open>h'\<close> extends \<open>h\<close> and differs from it below \<open>length h\<close> at most in the
  properties of the cell at \<open>a\<close>.
\<close>

definition cell_rep :: "heap \<Rightarrow> addr \<Rightarrow> addr set \<Rightarrow> (string \<times> jsvalue) list \<Rightarrow> bool" where
  "cell_rep h a F fs \<longleftrightarrow>
     a < length h \<and> F \<subseteq> {..<length h} \<and> a \<notin> F \<and> rep_fields h F (properties (h ! a)) fs"

definition same_but :: "addr \<Rightarrow> heap \<Rightarrow> heap \<Rightarrow> bool" where
  "same_but a h h' \<longleftrightarrow>
     length h \<le> length h' \<and> (\<forall>b < length h. b \<noteq> a \<longrightarrow> h' ! b = h ! b) \<and>
     (\<exists>ps. h' ! a = with_properties (h ! a) ps)"

section \<open>Notions of the statements\<close>

text \<open>A JSON value: no array in it carries a named property. That is what \<^verbatim>\<open>JSON.parse\<close>
  returns, and what a response document is.\<close>

fun is_json :: "jsvalue \<Rightarrow> bool" where
  "is_json (JArr xs ps) = (ps = [] \<and> list_all is_json xs)"
| "is_json (JObj fs) = list_all (\<lambda>(k, v). is_json v) fs"
| "is_json v = True"

text \<open>\<^verbatim>\<open>doc.choices[i].message\<close>, when \<^verbatim>\<open>doc.choices\<close> is an array with an element \<open>i\<close>
  that is not \<^verbatim>\<open>null\<close>; \<open>None\<close> when there is no such property.\<close>

definition message_at :: "jsvalue \<Rightarrow> nat \<Rightarrow> jsvalue option" where
  "message_at doc i =
     (case get_prop doc ''choices'' of
        Inl e \<Rightarrow> None
      | Inr None \<Rightarrow> None
      | Inr (Some cs) \<Rightarrow>
          if isArray cs \<and> i < length (elements cs) then
            (case get_prop (elements cs ! i) ''message'' of Inl e \<Rightarrow> None | Inr p \<Rightarrow> p)
          else None)"

text \<open>The test \<^verbatim>\<open>if (choice.message)\<close> of line 168, and the values on which the body of
  the loop raises no \<^verbatim>\<open>TypeError\<close>: the choice is not \<^verbatim>\<open>null\<close>, and a truthy message is
  an object or an array.\<close>

fun holds_properties :: "jsvalue \<Rightarrow> bool" where
  "holds_properties (JArr xs ps) = True"
| "holds_properties (JObj fs) = True"
| "holds_properties v = False"

definition has_message :: "jsvalue \<Rightarrow> bool" where
  "has_message c = (case get_prop c ''message'' of Inl e \<Rightarrow> False | Inr p \<Rightarrow> truthy_opt p)"

definition well_shaped :: "jsvalue \<Rightarrow> bool" where
  "well_shaped c =
     (case get_prop c ''message'' of
        Inl e \<Rightarrow> False
      | Inr p \<Rightarrow> \<not> truthy_opt p \<or> holds_properties (the p))"

text \<open>What the three assignments do to the list of properties of a message.\<close>

definition null_to :: "string \<Rightarrow> jsvalue \<Rightarrow> (string \<times> jsvalue) list \<Rightarrow> (string \<times> jsvalue) list" where
  "null_to k d fs = (if map_of fs k = Some JNull then AList.update k d fs else fs)"

definition missing_to :: "string \<Rightarrow> jsvalue \<Rightarrow> (string \<times> jsvalue) list \<Rightarrow> (string \<times> jsvalue) list" where
  "missing_to k d fs =
     (if map_of fs k = Some JNull \<or> map_of fs k = None then AList.update k d fs else fs)"

definition coerce :: "(string \<times> jsvalue) list \<Rightarrow> (string \<times> jsvalue) list" where
  "coerce fs =
     missing_to ''annotations'' (JArr [] [])
       (null_to ''function_call'' (JObj []) (null_to ''tool_calls'' (JArr [] []) fs))"

text \<open>
  The end-to-end scenario: one record whose \<^verbatim>\<open>data\<close> field holds a JSON text, and a
  \<^verbatim>\<open>JSON.parse\<close> that reads this text as the document it denotes.
\<close>

definition scenario_text :: string where
  \<open>scenario_text = ''{"choices":[{"message":{"tool_calls":null,"annotations":null}}]}''\<close>

definition scenario_doc :: jsvalue where
  "scenario_doc =
     JObj [(''choices'',
       JArr [JObj [(''message'', JObj [(''tool_calls'', JNull), (''annotations'', JNull)])]] [])]"

definition scenario_parse :: "string \<Rightarrow> jsvalue option" where
  "scenario_parse s = (if s = scenario_text then Some scenario_doc else None)"

definition scenario_item :: INodeExecutionData where
  "scenario_item = \<lparr> json = [(''data'', JStr scenario_text)], binary = None, pairedItem = None \<rparr>"

definition scenario_message :: jsvalue where
  "scenario_message = JObj [(''tool_calls'', JArr [] []), (''annotations'', JArr [] [])]"

definition scenario_result :: jsvalue where
  "scenario_result = JObj [(''choices'', JArr [JObj [(''message'', scenario_message)]] [])]"

definition scenario_output :: INodeExecutionData where
  "scenario_output = \<lparr> json = [(''data'', scenario_result)], binary = None, pairedItem = None \<rparr>"

text \<open>
  The two models side by side: a document is put on an empty heap and the function is run
  there, the outcome read back as JSON; and the function on values, its result read as
  JSON too (named properties of arrays are not part of a JSON text).
\<close>

definition run_on_heap :: "jsvalue \<Rightarrow> bool \<Rightarrow> nat \<Rightarrow> error + jsvalue" where
  "run_on_heap t strictMode itemIndex =
     (case build t [] of
        (data, h) \<Rightarrow>
          (case formatLiteLLMResponse_h data strictMode itemIndex h of
             (Inl e, h') \<Rightarrow> Inl e
           | (Inr v, h') \<Rightarrow> stringify h' [] v))"

definition run_on_values :: "jsvalue \<Rightarrow> bool \<Rightarrow> nat \<Rightarrow> error + jsvalue" where
  "run_on_values t strictMode itemIndex =
     (case formatLiteLLMResponse t strictMode itemIndex of
        Inl e \<Rightarrow> Inl e
      | Inr r \<Rightarrow> Inr (deep_clone r))"

definition sample_documents :: "jsvalue list" where
  "sample_documents =
     [scenario_doc, JNull, JObj [], JNum 5, JArr [JNum 1] [],
      JObj [(''choices'', JNum 5)],
      JObj [(''choices'', JArr [JObj []] [])],
      JObj [(''choices'', JArr [JNull] [])],
      JObj [(''choices'', JArr [JObj [(''message'', JNum 1)]] [])],
      JObj [(''choices'', JArr [JObj [(''message'', JNull)], JObj []] [])],
      JObj [(''choices'', JArr [JObj [(''message'', JArr [JStr ''a''] [])]] [])],
      JObj [(''id'', JStr ''x''),
            (''choices'',
             JArr [JObj [(''index'', JNum 0),
                         (''message'', JObj [(''role'', JStr ''assistant''),
                                             (''tool_calls'', JNull),
                                             (''function_call'', JNull)])],
                   JObj [(''message'', JObj [(''annotations'', JArr [JStr ''n''] []),
                                             (''tool_calls'', JArr [JObj []] [])])]] [])]]"

section \<open>Copies and JSON values\<close>

lemma deep_clone_json: "is_json v \<Longrightarrow> deep_clone v = v"
proof (induction v)
  case (JArr xs ps)
  then show ?case by (simp add: list_all_iff map_idI)
next
  case (JObj fs)
  then show ?case by (auto simp: list_all_iff intro!: map_idI)
qed simp_all

lemma is_json_deep_clone: "is_json (deep_clone v)"
proof (induction v)
  case (JArr xs ps)
  then show ?case by (simp add: list_all_iff)
next
  case (JObj fs)
  then show ?case by (auto simp: list_all_iff)
qed simp_all

lemma map_update_values:
  "map (\<lambda>(k, v). (k, f v)) (AList.update k v al) =
   AList.update k (f v) (map (\<lambda>(k, v). (k, f v)) al)"
  by (induction al) auto

lemma list_all_update:
  "P (k, v) \<Longrightarrow> list_all P al \<Longrightarrow> list_all P (AList.update k v al)"
  by (induction al) auto

lemma json_fields_clone:
  fixes fs :: "(string \<times> jsvalue) list"
  shows "list_all (\<lambda>(k, v). is_json v) fs \<Longrightarrow> map (\<lambda>(k, v). (k, deep_clone v)) fs = fs"
  using deep_clone_json [of "JObj fs"] by simp

lemma json_elements_clone: "list_all is_json xs \<Longrightarrow> map deep_clone xs = xs"
  using deep_clone_json [of "JArr xs []"] by simp

section \<open>The coercion of a message\<close>

lemma map_of_null_to:
  "map_of (null_to k d fs) k' = (if k' = k \<and> map_of fs k = Some JNull then Some d else map_of fs k')"
  by (simp add: null_to_def update_conv')

lemma map_of_missing_to:
  "map_of (missing_to k d fs) k' =
     (if k' = k \<and> (map_of fs k = Some JNull \<or> map_of fs k = None) then Some d else map_of fs k')"
  by (simp add: missing_to_def update_conv')

lemma replace_null_tool_calls_JObj:
  "replace_null_tool_calls (JObj fs) = Inr (JObj (null_to ''tool_calls'' (JArr [] []) fs))"
  by (simp add: replace_null_tool_calls_def null_to_def)

lemma replace_null_function_call_JObj:
  "replace_null_function_call (JObj fs) = Inr (JObj (null_to ''function_call'' (JObj []) fs))"
  by (simp add: replace_null_function_call_def null_to_def)

lemma ensure_annotations_JObj:
  "ensure_annotations (JObj fs) = Inr (JObj (missing_to ''annotations'' (JArr [] []) fs))"
  by (simp add: ensure_annotations_def missing_to_def)

lemma replace_null_tool_calls_JArr:
  "replace_null_tool_calls (JArr xs ps) = Inr (JArr xs (null_to ''tool_calls'' (JArr [] []) ps))"
  by (simp add: replace_null_tool_calls_def null_to_def)

lemma replace_null_function_call_JArr:
  "replace_null_function_call (JArr xs ps) = Inr (JArr xs (null_to ''function_call'' (JObj []) ps))"
  by (simp add: replace_null_function_call_def null_to_def)

lemma ensure_annotations_JArr:
  "ensure_annotations (JArr xs ps) = Inr (JArr xs (missing_to ''annotations'' (JArr [] []) ps))"
  by (simp add: ensure_annotations_def missing_to_def)

lemma format_message_JObj: "format_message (JObj fs) = Inr (JObj (coerce fs))"
  by (simp add: format_message_def coerce_def replace_null_tool_calls_JObj
      replace_null_function_call_JObj ensure_annotations_JObj)

lemma format_message_JArr: "format_message (JArr xs ps) = Inr (JArr xs (coerce ps))"
  by (simp add: format_message_def coerce_def replace_null_tool_calls_JArr
      replace_null_function_call_JArr ensure_annotations_JArr)

lemma format_message_primitive:
  "format_message JNull = Inl TypeError" "format_message (JBool b) = Inl TypeError"
  "format_message (JNum n) = Inl TypeError" "format_message (JStr s) = Inl TypeError"
  by (simp_all add: format_message_def replace_null_tool_calls_def replace_null_function_call_def
      ensure_annotations_def)

lemma map_of_coerce_tool_calls:
  "map_of (coerce fs) ''tool_calls'' =
     (if map_of fs ''tool_calls'' = Some JNull then Some (JArr [] []) else map_of fs ''tool_calls'')"
  by (simp add: coerce_def map_of_null_to map_of_missing_to)

lemma map_of_coerce_function_call:
  "map_of (coerce fs) ''function_call'' =
     (if map_of fs ''function_call'' = Some JNull then Some (JObj []) else map_of fs ''function_call'')"
  by (simp add: coerce_def map_of_null_to map_of_missing_to)

lemma map_of_coerce_annotations:
  "map_of (coerce fs) ''annotations'' =
     (if map_of fs ''annotations'' = Some JNull \<or> map_of fs ''annotations'' = None
      then Some (JArr [] []) else map_of fs ''annotations'')"
  by (simp add: coerce_def map_of_null_to map_of_missing_to)

lemma map_of_coerce_other:
  "k \<noteq> ''tool_calls'' \<Longrightarrow> k \<noteq> ''function_call'' \<Longrightarrow> k \<noteq> ''annotations'' \<Longrightarrow>
   map_of (coerce fs) k = map_of fs k"
  by (simp add: coerce_def map_of_null_to map_of_missing_to)

lemma null_to_idem: "d \<noteq> JNull \<Longrightarrow> null_to k d (null_to k d fs) = null_to k d fs"
  by (simp add: null_to_def update_conv')

lemma missing_to_idem: "d \<noteq> JNull \<Longrightarrow> missing_to k d (missing_to k d fs) = missing_to k d fs"
  by (simp add: missing_to_def update_conv')

lemma null_to_fixed: "map_of fs k \<noteq> Some JNull \<Longrightarrow> null_to k d fs = fs"
  by (simp add: null_to_def)

lemma missing_to_fixed: "map_of fs k \<noteq> Some JNull \<Longrightarrow> map_of fs k \<noteq> None \<Longrightarrow> missing_to k d fs = fs"
  by (auto simp: missing_to_def)

lemma coerce_idem: "coerce (coerce fs) = coerce fs"
proof -
  have a: "map_of (coerce fs) ''tool_calls'' \<noteq> Some JNull"
    by (simp add: map_of_coerce_tool_calls)
  have b: "map_of (coerce fs) ''function_call'' \<noteq> Some JNull"
    by (simp add: map_of_coerce_function_call)
  have c: "map_of (coerce fs) ''annotations'' \<noteq> Some JNull" "map_of (coerce fs) ''annotations'' \<noteq> None"
    by (simp_all add: map_of_coerce_annotations)
  show ?thesis
    unfolding coerce_def [of "coerce fs"]
    by (simp add: null_to_fixed missing_to_fixed a b c)
qed


lemma is_json_coerce:
  "list_all (\<lambda>(k, v). is_json v) fs \<Longrightarrow> list_all (\<lambda>(k, v). is_json v) (coerce fs)"
  by (simp add: coerce_def null_to_def missing_to_def list_all_update)

lemma format_message_idem:
  assumes "is_json m" and "format_message m = Inr m'"
  shows "format_message (deep_clone m') = Inr m'"
proof (cases m)
  case (JArr xs ps)
  with assms have m': "m' = JArr xs (coerce [])" and xs: "list_all is_json xs"
    by (simp_all add: format_message_JArr)
  show ?thesis
    by (simp add: m' json_elements_clone [OF xs] format_message_JArr)
next
  case (JObj fs)
  with assms have m': "m' = JObj (coerce fs)" and fs: "list_all (\<lambda>(k, v). is_json v) fs"
    by (simp_all add: format_message_JObj)
  have "deep_clone m' = m'"
    using deep_clone_json [of m'] is_json_coerce [OF fs] by (simp add: m')
  then show ?thesis
    by (simp add: m' format_message_JObj coerce_idem)
qed (use assms in \<open>simp_all add: format_message_primitive\<close>)

lemma format_message_truthy: "format_message m = Inr m' \<Longrightarrow> truthy m'"
  by (cases m) (auto simp: format_message_primitive format_message_JObj format_message_JArr)

lemma is_json_format_message: "format_message m = Inr m' \<Longrightarrow> truthy (deep_clone m')"
  by (cases m) (auto simp: format_message_primitive format_message_JObj format_message_JArr)

section \<open>The loop over the choices\<close>

lemma get_prop_with_prop:
  "get_prop c k = Inr (Some v0) \<Longrightarrow> get_prop (with_prop c k v) k = Inr (Some v)"
  by (cases c) (simp_all add: update_conv')

lemma format_choices_length:
  "format_choices s ix i cs = Inr cs' \<Longrightarrow> length cs' = length cs"
  by (induction cs arbitrary: i cs') (auto split: sum.splits)

lemma format_choices_nth:
  "format_choices s ix i cs = Inr cs' \<Longrightarrow> k < length cs \<Longrightarrow>
   format_choice s ix (i + k) (cs ! k) = Inr (cs' ! k)"
proof (induction cs arbitrary: i cs' k)
  case Nil
  then show ?case by simp
next
  case (Cons c cs)
  from Cons.prems(1) obtain d ds where d: "format_choice s ix i c = Inr d"
    and ds: "format_choices s ix (Suc i) cs = Inr ds" and cs': "cs' = d # ds"
    by (auto split: sum.splits)
  show ?case
  proof (cases k)
    case 0
    then show ?thesis by (simp add: d cs')
  next
    case (Suc j)
    with Cons.prems(2) have "j < length cs" by simp
    from Cons.IH [OF ds this] show ?thesis by (simp add: Suc cs')
  qed
qed

lemma format_choices_all:
  "\<forall>k<length cs. \<exists>c'. format_choice s ix (i + k) (cs ! k) = Inr c' \<Longrightarrow>
   \<exists>cs'. format_choices s ix i cs = Inr cs'"
proof (induction cs arbitrary: i)
  case Nil
  then show ?case by simp
next
  case (Cons c cs)
  from Cons.prems have "\<exists>c'. format_choice s ix (i + 0) ((c # cs) ! 0) = Inr c'" by blast
  then obtain d where d: "format_choice s ix i c = Inr d" by auto
  have "\<forall>k<length cs. \<exists>c'. format_choice s ix (Suc i + k) (cs ! k) = Inr c'"
  proof (intro allI impI)
    fix k assume "k < length cs"
    then have "Suc k < length (c # cs)" by simp
    with Cons.prems have "\<exists>c'. format_choice s ix (i + Suc k) ((c # cs) ! Suc k) = Inr c'"
      by blast
    then show "\<exists>c'. format_choice s ix (Suc i + k) (cs ! k) = Inr c'" by simp
  qed
  from Cons.IH [OF this] obtain ds where "format_choices s ix (Suc i) cs = Inr ds" by blast
  with d show ?case by simp
qed

lemma format_choices_first_error:
  "k < length cs \<Longrightarrow> format_choice s ix (i + k) (cs ! k) = Inl e \<Longrightarrow>
   \<forall>j<k. \<exists>c'. format_choice s ix (i + j) (cs ! j) = Inr c' \<Longrightarrow>
   format_choices s ix i cs = Inl e"
proof (induction cs arbitrary: i k)
  case Nil
  then show ?case by simp
next
  case (Cons c cs)
  show ?case
  proof (cases k)
    case 0
    with Cons.prems(2) show ?thesis by simp
  next
    case (Suc j)
    from Cons.prems(3) Suc have "\<exists>c'. format_choice s ix (i + 0) ((c # cs) ! 0) = Inr c'"
      by blast
    then obtain d where d: "format_choice s ix i c = Inr d" by auto
    have j: "j < length cs" using Cons.prems(1) Suc by simp
    have e: "format_choice s ix (Suc i + j) (cs ! j) = Inl e"
      using Cons.prems(2) Suc by simp
    have "\<forall>l<j. \<exists>c'. format_choice s ix (Suc i + l) (cs ! l) = Inr c'"
    proof (intro allI impI)
      fix l assume "l < j"
      then have "Suc l < k" using Suc by simp
      with Cons.prems(3) have "\<exists>c'. format_choice s ix (i + Suc l) ((c # cs) ! Suc l) = Inr c'"
        by blast
      then show "\<exists>c'. format_choice s ix (Suc i + l) (cs ! l) = Inr c'" by simp
    qed
    from Cons.IH [OF j e this] d show ?thesis by simp
  qed
qed

lemma format_message_holds_properties:
  "holds_properties m \<Longrightarrow> \<exists>m'. format_message m = Inr m'"
  by (cases m) (simp_all add: format_message_JObj format_message_JArr)

lemma format_choice_well_shaped:
  assumes "well_shaped c" and "has_message c \<or> \<not> s"
  shows "\<exists>c'. format_choice s ix i c = Inr c'"
proof -
  from assms(1) obtain p where p: "get_prop c ''message'' = Inr p"
    and q: "\<not> truthy_opt p \<or> holds_properties (the p)"
    by (auto simp: well_shaped_def split: sum.splits)
  show ?thesis
  proof (cases "truthy_opt p")
    case True
    with q obtain m' where "format_message (the p) = Inr m'"
      using format_message_holds_properties by blast
    with p True show ?thesis by (simp add: format_choice_def)
  next
    case False
    with assms(2) p have "\<not> s" by (simp add: has_message_def)
    with p False show ?thesis by (simp add: format_choice_def)
  qed
qed

lemma format_choice_no_message:
  assumes "c \<noteq> JNull" and "\<not> has_message c"
  shows "format_choice True ix i c = Inl (NodeOperationError (ChoiceWithoutMessage i) ix)"
    and "format_choice False ix i c = Inr c"
proof -
  from assms(1) obtain p where p: "get_prop c ''message'' = Inr p" by (cases c) auto
  with assms(2) have "\<not> truthy_opt p" by (simp add: has_message_def)
  with p show "format_choice True ix i c = Inl (NodeOperationError (ChoiceWithoutMessage i) ix)"
    and "format_choice False ix i c = Inr c"
    by (simp_all add: format_choice_def)
qed

lemma message_at_result:
  assumes "formatLiteLLMResponse data strictMode itemIndex = Inr r"
    and "message_at (deep_clone data) i = Some (JObj fs)"
  shows "message_at r i = Some (JObj (coerce fs))"
proof -
  define c where "c = deep_clone data"
  from assms(2) obtain a where a: "get_prop c ''choices'' = Inr (Some a)" and arr: "isArray a"
    and i: "i < length (elements a)"
    and m: "get_prop (elements a ! i) ''message'' = Inr (Some (JObj fs))"
    by (auto simp: message_at_def c_def split: sum.splits option.splits if_splits)
  from arr obtain cs ps where acs: "a = JArr cs ps" by (cases a) auto
  from assms(1) a acs obtain cs' where cs': "format_choices strictMode itemIndex 0 cs = Inr cs'"
    and r: "r = with_prop c ''choices'' (JArr cs' ps)"
    by (auto simp: formatLiteLLMResponse_def c_def split: sum.splits)
  have len: "length cs' = length cs" by (rule format_choices_length [OF cs'])
  from i acs have i': "i < length cs" by simp
  from format_choices_nth [OF cs' i'] have "format_choice strictMode itemIndex i (cs ! i) = Inr (cs' ! i)"
    by simp
  with m acs have ci: "cs' ! i = with_prop (cs ! i) ''message'' (JObj (coerce fs))"
    by (simp add: format_choice_def format_message_JObj)
  from m acs have "get_prop (cs ! i) ''message'' = Inr (Some (JObj fs))" by simp
  then have "get_prop (cs' ! i) ''message'' = Inr (Some (JObj (coerce fs)))"
    unfolding ci by (rule get_prop_with_prop)
  moreover from a have "get_prop r ''choices'' = Inr (Some (JArr cs' ps))"
    unfolding r by (rule get_prop_with_prop)
  ultimately show ?thesis
    using i' len by (simp add: message_at_def)
qed


lemma format_choice_idem:
  assumes "is_json c" and "format_choice s ix i c = Inr c'"
  shows "format_choice s ix i (deep_clone c') = Inr c'"
proof (cases "\<exists>fs m. c = JObj fs \<and> map_of fs ''message'' = Some m \<and> truthy m")
  case True
  then obtain fs m where c: "c = JObj fs" and m: "map_of fs ''message'' = Some m" "truthy m"
    by blast
  from assms(1) c have fs: "list_all (\<lambda>(k, v). is_json v) fs" by simp
  from m(1) have "(''message'', m) \<in> set fs" by (rule map_of_SomeD)
  with fs have jm: "is_json m" by (auto simp: list_all_iff)
  from assms(2) c m obtain m' where m': "format_message m = Inr m'"
    and c': "c' = JObj (AList.update ''message'' m' fs)"
    by (auto simp: format_choice_def split: sum.splits)
  have clone: "deep_clone c' = JObj (AList.update ''message'' (deep_clone m') fs)"
    by (simp add: c' map_update_values [where f = deep_clone] json_fields_clone [OF fs])
  show ?thesis
    unfolding format_choice_def clone
    by (simp add: update_conv' is_json_format_message [OF m']
        format_message_idem [OF jm m'] c')
next
  case False
  have "\<exists>p. get_prop c ''message'' = Inr p \<and> \<not> truthy_opt p"
  proof (cases c)
    case JNull
    with assms(2) show ?thesis by (simp add: format_choice_def)
  next
    case (JArr xs ps)
    with assms(1) show ?thesis by simp
  next
    case (JObj fs)
    with False show ?thesis by (cases "map_of fs ''message''") auto
  qed simp_all
  then obtain p where p: "get_prop c ''message'' = Inr p" "\<not> truthy_opt p" by blast
  with assms(2) have "c' = c" and "\<not> s"
    by (auto simp: format_choice_def split: if_splits)
  then show ?thesis
    using p deep_clone_json [OF assms(1)] by (simp add: format_choice_def)
qed

lemma format_choices_idem:
  "list_all is_json cs \<Longrightarrow> format_choices s ix i cs = Inr cs' \<Longrightarrow>
   format_choices s ix i (map deep_clone cs') = Inr cs'"
proof (induction cs arbitrary: i cs')
  case Nil
  then show ?case by simp
next
  case (Cons c cs)
  from Cons.prems(2) obtain d ds where d: "format_choice s ix i c = Inr d"
    and ds: "format_choices s ix (Suc i) cs = Inr ds" and cs': "cs' = d # ds"
    by (auto split: sum.splits)
  from Cons.prems(1) have "is_json c" "list_all is_json cs" by simp_all
  then show ?case
    using format_choice_idem [OF _ d] Cons.IH [OF _ ds] by (simp add: cs')
qed

section \<open>The loop over the records\<close>

lemma process_items_length:
  "process_items parse inF outF s i its = Inr rs \<Longrightarrow> length rs = length its"
  by (induction its arbitrary: i rs) (auto split: sum.splits)

lemma process_items_nth:
  "process_items parse inF outF s i its = Inr rs \<Longrightarrow> k < length its \<Longrightarrow>
   process_item parse inF outF s (i + k) (its ! k) = Inr (rs ! k)"
proof (induction its arbitrary: i rs k)
  case Nil
  then show ?case by simp
next
  case (Cons it its)
  from Cons.prems(1) obtain d ds where d: "process_item parse inF outF s i it = Inr d"
    and ds: "process_items parse inF outF s (Suc i) its = Inr ds" and rs: "rs = d # ds"
    by (auto split: sum.splits)
  show ?case
  proof (cases k)
    case 0
    then show ?thesis by (simp add: d rs)
  next
    case (Suc j)
    with Cons.prems(2) have "j < length its" by simp
    from Cons.IH [OF ds this] show ?thesis by (simp add: Suc rs)
  qed
qed

lemma process_items_all:
  "length rs = length its \<Longrightarrow>
   \<forall>k<length its. process_item parse inF outF s (i + k) (its ! k) = Inr (rs ! k) \<Longrightarrow>
   process_items parse inF outF s i its = Inr rs"
proof (induction its arbitrary: i rs)
  case Nil
  then show ?case by simp
next
  case (Cons it its)
  from Cons.prems(1) obtain d ds where rs: "rs = d # ds" and len: "length ds = length its"
    by (cases rs) auto
  from Cons.prems(2) have "process_item parse inF outF s (i + 0) ((it # its) ! 0) = Inr (rs ! 0)"
    by blast
  then have d: "process_item parse inF outF s i it = Inr d" by (simp add: rs)
  have "\<forall>k<length its. process_item parse inF outF s (Suc i + k) (its ! k) = Inr (ds ! k)"
  proof (intro allI impI)
    fix k assume "k < length its"
    then have "Suc k < length (it # its)" by simp
    with Cons.prems(2)
    have "process_item parse inF outF s (i + Suc k) ((it # its) ! Suc k) = Inr (rs ! Suc k)"
      by blast
    then show "process_item parse inF outF s (Suc i + k) (its ! k) = Inr (ds ! k)"
      by (simp add: rs)
  qed
  from Cons.IH [OF len this] d show ?case by (simp add: rs)
qed

lemma output_placement:
  assumes "map_of (json item) inputField = Some v" and "truthy v"
    and "case v of JStr s \<Rightarrow> parse s = Some d | w \<Rightarrow> d = w"
    and "formatLiteLLMResponse d strictMode itemIndex = Inr formattedData"
    and "binary item = None \<or> truthy_opt (binary item)"
    and "pairedItem item = None \<or> truthy_opt (pairedItem item)"
  shows "process_item parse inputField outputField strictMode itemIndex (Some item) =
           Inr (item \<lparr> json := AList.update outputField formattedData (json item) \<rparr>)"
proof -
  from assms(1,2,3,4)
  have "process_item parse inputField outputField strictMode itemIndex (Some item) =
          Inr \<lparr> json = AList.update outputField formattedData (json item),
                binary = (if truthy_opt (binary item) then binary item else None),
                pairedItem = (if truthy_opt (pairedItem item) then pairedItem item else None) \<rparr>"
    by (cases v) (simp_all add: process_item_def format_item_def)
  with assms(5,6) show ?thesis by auto
qed

lemma format_without_choices_array:
  assumes "data \<noteq> JNull"
    and "\<forall>cs ps. get_prop (deep_clone data) ''choices'' \<noteq> Inr (Some (JArr cs ps))"
  shows "formatLiteLLMResponse data True itemIndex =
           Inl (NodeOperationError NoValidChoicesArray itemIndex)"
    and "formatLiteLLMResponse data False itemIndex = Inr (deep_clone data)"
proof -
  from assms(1) obtain p where p: "get_prop (deep_clone data) ''choices'' = Inr p"
    by (cases data) auto
  have "\<not> (truthy_opt p \<and> isArray (the p))"
  proof
    assume "truthy_opt p \<and> isArray (the p)"
    then obtain cs ps where "p = Some (JArr cs ps)"
      by (cases p; cases "the p") auto
    with p assms(2) show False by simp
  qed
  with p show "formatLiteLLMResponse data True itemIndex =
           Inl (NodeOperationError NoValidChoicesArray itemIndex)"
    and "formatLiteLLMResponse data False itemIndex = Inr (deep_clone data)"
    by (auto simp: formatLiteLLMResponse_def)
qed

lemma format_empty_object:
  "formatLiteLLMResponse (JObj []) True itemIndex =
     Inl (NodeOperationError NoValidChoicesArray itemIndex)"
  "formatLiteLLMResponse (JObj []) False itemIndex = Inr (JObj [])"
  by (simp_all add: formatLiteLLMResponse_def)

lemma null_text_aborts_batch:
  assumes "parse ''null'' = Some JNull"
  shows "execute parse ''data'' ''data'' True False
           [\<lparr> json = [(''data'', JStr ''null'')], binary = None, pairedItem = None \<rparr>] =
         Inl (NodeOperationError (ErrorProcessingItem 0) 0)"
  using assms by (simp add: execute_def process_item_def format_item_def formatLiteLLMResponse_def)

section \<open>The store: what a call leaves alone\<close>

lemma grows_refl: "grows n h h"
  by (simp add: grows_def)

lemma grows_trans: "grows n h h1 \<Longrightarrow> grows n h1 h2 \<Longrightarrow> grows n h h2"
  by (auto simp: grows_def)

lemma grows_length: "grows n h h' \<Longrightarrow> length h \<le> length h'"
  by (simp add: grows_def)

lemma grows_closed: "grows n h h' \<Longrightarrow> closed_from n h \<Longrightarrow> closed_from n h'"
  by (simp add: grows_def)

lemma fresh_value_mono: "fresh_value n h v \<Longrightarrow> length h \<le> length h' \<Longrightarrow> fresh_value n h' v"
  by (auto simp: fresh_value_def split: hvalue.splits)

lemma fresh_value_grows: "fresh_value n h v \<Longrightarrow> grows n h h' \<Longrightarrow> fresh_value n h' v"
  unfolding grows_def by (blast intro: fresh_value_mono)

lemma fresh_value_HRef: "fresh_value n h (HRef a) \<longleftrightarrow> n \<le> a \<and> a < length h"
  by (simp add: fresh_value_def)

lemma closed_from_length: "closed_from (length h) h"
  by (auto simp: closed_from_def)

lemma grows_append:
  assumes "n \<le> length h" and "\<forall>v \<in> values_of ob. fresh_value n (h @ [ob]) v"
  shows "grows n h (h @ [ob])"
proof -
  have "closed_from n (h @ [ob])" if c: "closed_from n h"
    unfolding closed_from_def
  proof (intro allI impI ballI)
    fix a v assume a: "n \<le> a \<and> a < length (h @ [ob])" and v: "v \<in> values_of ((h @ [ob]) ! a)"
    show "fresh_value n (h @ [ob]) v"
    proof (cases "a < length h")
      case True
      with v have "v \<in> values_of (h ! a)" by (simp add: nth_append)
      with c a True have "fresh_value n h v" by (auto simp: closed_from_def)
      then show ?thesis by (rule fresh_value_mono) simp
    next
      case False
      with a have "a = length h" by simp
      with v assms(2) show ?thesis by simp
    qed
  qed
  with assms(1) show ?thesis by (simp add: grows_def)
qed

lemma grows_update:
  assumes "n \<le> a" and "a < length h" and "values_of ob \<subseteq> insert v (values_of (h ! a))"
    and "fresh_value n h v"
  shows "grows n h (h[a := ob])"
proof -
  have "closed_from n (h[a := ob])" if c: "closed_from n h"
    unfolding closed_from_def
  proof (intro allI impI ballI)
    fix b w assume b: "n \<le> b \<and> b < length (h[a := ob])" and w: "w \<in> values_of (h[a := ob] ! b)"
    have "fresh_value n h w"
    proof (cases "b = a")
      case True
      with w assms(2) have "w \<in> values_of ob" by simp
      with assms(3) have "w = v \<or> w \<in> values_of (h ! a)" by auto
      with c assms(1,2,4) show ?thesis by (auto simp: closed_from_def)
    next
      case False
      with w have "w \<in> values_of (h ! b)" by simp
      with c b show ?thesis by (auto simp: closed_from_def)
    qed
    then show "fresh_value n (h[a := ob]) w" by (rule fresh_value_mono) simp
  qed
  with assms(1) show ?thesis by (simp add: grows_def)
qed

lemma values_update: "snd ` set (AList.update k v ps) \<subseteq> insert v (snd ` set ps)"
  by (induction ps) auto

lemma values_of_with_properties:
  "values_of (with_properties ob (AList.update k v (properties ob))) \<subseteq> insert v (values_of ob)"
  using values_update [of k v] by (cases ob) auto

lemma set_prop_h_grows:
  assumes "fresh_value n h m" and "fresh_value n h v" and "set_prop_h h m k v = Inr h'"
  shows "grows n h h'"
proof (cases m)
  case (HRef a)
  with assms(1) have a: "n \<le> a" "a < length h" by (simp_all add: fresh_value_HRef)
  from assms(3) HRef
  have "h' = h[a := with_properties (h ! a) (AList.update k v (properties (h ! a)))]" by simp
  with grows_update [OF a values_of_with_properties assms(2)] show ?thesis by simp
qed (use assms(3) in simp_all)

lemma assign_new_grows:
  assumes "n \<le> length h" and "fresh_value n h m" and "values_of ob = {}"
    and "assign_new m k ob h = (r, h')"
  shows "grows n h h'"
proof -
  have g1: "grows n h (h @ [ob])" using assms(1,3) by (intro grows_append) simp_all
  have m: "fresh_value n (h @ [ob]) m" using assms(2) by (rule fresh_value_mono) simp
  have v: "fresh_value n (h @ [ob]) (HRef (length h))"
    using assms(1) by (simp add: fresh_value_HRef)
  show ?thesis
  proof (cases "set_prop_h (h @ [ob]) m k (HRef (length h))")
    case (Inl e)
    with assms(4) g1 show ?thesis by (simp add: assign_new_def)
  next
    case (Inr h2)
    from set_prop_h_grows [OF m v Inr] g1 have "grows n h h2" by (blast intro: grows_trans)
    with assms(4) Inr show ?thesis by (simp add: assign_new_def)
  qed
qed

lemma replace_null_tool_calls_h_grows:
  assumes "n \<le> length h" and "fresh_value n h m" and "replace_null_tool_calls_h m h = (r, h')"
  shows "grows n h h'"
  using assms(3) assign_new_grows [OF assms(1,2), of "HArray [] []" "''tool_calls''"] grows_refl
  by (auto simp: replace_null_tool_calls_h_def split: sum.splits if_splits)

lemma replace_null_function_call_h_grows:
  assumes "n \<le> length h" and "fresh_value n h m" and "replace_null_function_call_h m h = (r, h')"
  shows "grows n h h'"
  using assms(3) assign_new_grows [OF assms(1,2), of "HObject []" "''function_call''"] grows_refl
  by (auto simp: replace_null_function_call_h_def split: sum.splits if_splits)

lemma ensure_annotations_h_grows:
  assumes "n \<le> length h" and "fresh_value n h m" and "ensure_annotations_h m h = (r, h')"
  shows "grows n h h'"
  using assms(3) assign_new_grows [OF assms(1,2), of "HArray [] []" "''annotations''"] grows_refl
  by (auto simp: ensure_annotations_h_def split: sum.splits if_splits)

lemma format_message_h_grows:
  assumes "n \<le> length h" and "fresh_value n h m" and "format_message_h m h = (r, h')"
  shows "grows n h h'"
proof -
  obtain r1 h1 where s1: "replace_null_tool_calls_h m h = (r1, h1)"
    by (cases "replace_null_tool_calls_h m h")
  obtain r2 h2 where s2: "replace_null_function_call_h m h1 = (r2, h2)"
    by (cases "replace_null_function_call_h m h1")
  obtain r3 h3 where s3: "ensure_annotations_h m h2 = (r3, h3)"
    by (cases "ensure_annotations_h m h2")
  have g1: "grows n h h1" by (rule replace_null_tool_calls_h_grows [OF assms(1,2) s1])
  have n1: "n \<le> length h1" using assms(1) grows_length [OF g1] by simp
  have m1: "fresh_value n h1 m" by (rule fresh_value_grows [OF assms(2) g1])
  have g2: "grows n h1 h2" by (rule replace_null_function_call_h_grows [OF n1 m1 s2])
  have n2: "n \<le> length h2" using n1 grows_length [OF g2] by simp
  have m2: "fresh_value n h2 m" by (rule fresh_value_grows [OF m1 g2])
  have g3: "grows n h2 h3" by (rule ensure_annotations_h_grows [OF n2 m2 s3])
  have "h' = h1 \<or> h' = h2 \<or> h' = h3"
    using assms(3) s1 s2 s3 by (auto simp: format_message_h_def split: option.splits)
  with g1 g2 g3 show ?thesis by (blast intro: grows_trans)
qed

lemma get_prop_h_fresh:
  assumes "closed_from n h" and "fresh_value n h c" and "get_prop_h h c k = Inr (Some v)"
  shows "fresh_value n h v"
proof (cases c)
  case (HRef a)
  with assms(2) have a: "n \<le> a" "a < length h" by (simp_all add: fresh_value_HRef)
  with assms(3) HRef have "map_of (properties (h ! a)) k = Some v" by simp
  then have "(k, v) \<in> set (properties (h ! a))" by (rule map_of_SomeD)
  then have "v \<in> values_of (h ! a)" by (cases "h ! a") force+
  with assms(1) a show ?thesis by (auto simp: closed_from_def)
qed (use assms(3) in simp_all)

lemma elements_h_fresh:
  assumes "closed_from n h" and "fresh_value n h c" and "x \<in> set (elements_h h c)"
  shows "fresh_value n h x"
proof (cases c)
  case (HRef a)
  with assms(2) have a: "n \<le> a" "a < length h" by (simp_all add: fresh_value_HRef)
  with assms(3) HRef have "x \<in> values_of (h ! a)" by (cases "h ! a") auto
  with assms(1) a show ?thesis by (auto simp: closed_from_def)
qed (use assms(3) in simp_all)

lemma format_choice_h_grows:
  assumes "n \<le> length h" and "closed_from n h" and "fresh_value n h c"
    and "format_choice_h s ix i c h = (r, h')"
  shows "grows n h h'"
proof (cases "get_prop_h h c ''message''")
  case (Inl e)
  with assms(4) show ?thesis by (simp add: format_choice_h_def grows_refl)
next
  case (Inr p)
  show ?thesis
  proof (cases "truthy_opt_h p")
    case True
    then obtain m where p: "p = Some m" by (cases p) auto
    from get_prop_h_fresh [OF assms(2,3)] Inr p have "fresh_value n h m" by simp
    from format_message_h_grows [OF assms(1) this] assms(4) Inr True p show ?thesis
      by (simp add: format_choice_h_def)
  next
    case False
    with assms(4) Inr show ?thesis by (auto simp: format_choice_h_def grows_refl split: if_splits)
  qed
qed

lemma format_choices_h_grows:
  "n \<le> length h \<Longrightarrow> closed_from n h \<Longrightarrow> \<forall>c \<in> set cs. fresh_value n h c \<Longrightarrow>
   format_choices_h s ix i cs h = (r, h') \<Longrightarrow> grows n h h'"
proof (induction cs arbitrary: h i)
  case Nil
  then show ?case by (simp add: grows_refl)
next
  case (Cons c cs)
  obtain r1 h1 where s1: "format_choice_h s ix i c h = (r1, h1)"
    by (cases "format_choice_h s ix i c h")
  from Cons.prems(3) have c: "fresh_value n h c" by simp
  have g1: "grows n h h1" by (rule format_choice_h_grows [OF Cons.prems(1,2) c s1])
  show ?case
  proof (cases r1)
    case (Some e)
    with Cons.prems(4) s1 g1 show ?thesis by simp
  next
    case None
    with Cons.prems(4) s1 have rest: "format_choices_h s ix (Suc i) cs h1 = (r, h')" by simp
    have n1: "n \<le> length h1" using Cons.prems(1) grows_length [OF g1] by simp
    have c1: "closed_from n h1" by (rule grows_closed [OF g1 Cons.prems(2)])
    have f1: "\<forall>c \<in> set cs. fresh_value n h1 c"
      using Cons.prems(3) fresh_value_grows [OF _ g1] by simp
    from Cons.IH [OF n1 c1 f1 rest] g1 show ?thesis by (blast intro: grows_trans)
  qed
qed

lemma build_all_grows:
  assumes "\<And>x g v g'. x \<in> set xs \<Longrightarrow> n \<le> length g \<Longrightarrow> f x g = (v, g') \<Longrightarrow>
             grows n g g' \<and> fresh_value n g' (val v)"
    and "n \<le> length h" and "build_all f xs h = (vs, h')"
  shows "grows n h h' \<and> (\<forall>v \<in> set vs. fresh_value n h' (val v))"
  using assms
proof (induction xs arbitrary: h vs h')
  case Nil
  then show ?case by (simp add: grows_refl)
next
  case (Cons x xs)
  obtain v h1 where s1: "f x h = (v, h1)" by (cases "f x h")
  obtain ws h2 where s2: "build_all f xs h1 = (ws, h2)" by (cases "build_all f xs h1")
  from Cons.prems(3) s1 s2 have vs: "vs = v # ws" and h': "h' = h2" by simp_all
  from Cons.prems(1) [OF _ Cons.prems(2) s1] have g1: "grows n h h1" and v: "fresh_value n h1 (val v)"
    by simp_all
  have n1: "n \<le> length h1" using Cons.prems(2) grows_length [OF g1] by simp
  have "grows n h1 h2 \<and> (\<forall>v \<in> set ws. fresh_value n h2 (val v))"
  proof (rule Cons.IH [OF _ n1 s2])
    fix y g w g' assume "y \<in> set xs" and "n \<le> length g" and "f y g = (w, g')"
    then show "grows n g g' \<and> fresh_value n g' (val w)"
      using Cons.prems(1) [of y g w g'] by simp
  qed
  with g1 v show ?case
    by (auto simp: vs h' intro: grows_trans fresh_value_grows)
qed

lemma build_grows:
  "n \<le> length h \<Longrightarrow> build t h = (v, h') \<Longrightarrow> grows n h h' \<and> fresh_value n h' v"
proof (induction t h arbitrary: v h' rule: build.induct)
  case (5 xs ps h)
  let ?f = "\<lambda>p g. case build (snd p) g of (v, g') \<Rightarrow> ((fst p, v), g')"
  obtain vs h1 where s1: "build_all build xs h = (vs, h1)" by (cases "build_all build xs h")
  obtain qs h2 where s2: "build_all ?f ps h1 = (qs, h2)" by (cases "build_all ?f ps h1")
  from "5.prems"(2) s1 s2 have v: "v = HRef (length h2)" and h': "h' = h2 @ [HArray vs qs]"
    by simp_all
  have a1: "grows n h h1 \<and> (\<forall>v \<in> set vs. fresh_value n h1 ((\<lambda>v. v) v))"
    using "5.IH"(1) "5.prems"(1) s1 by (intro build_all_grows [where f = build]) auto
  then have g1: "grows n h h1" and f1: "\<forall>v \<in> set vs. fresh_value n h1 v" by simp_all
  have n1: "n \<le> length h1" using "5.prems"(1) grows_length [OF g1] by simp
  have a2: "grows n h1 h2 \<and> (\<forall>q \<in> set qs. fresh_value n h2 (snd q))"
  proof (rule build_all_grows [where f = ?f, OF _ n1 s2])
    fix x g w g' assume x: "x \<in> set ps" and g: "n \<le> length g" and w: "?f x g = (w, g')"
    obtain u where u: "build (snd x) g = (u, g')" and wu: "w = (fst x, u)"
      using w by (auto split: prod.splits)
    from "5.IH"(2) [OF s1 [symmetric] x g u] wu
    show "grows n g g' \<and> fresh_value n g' (snd w)" by simp
  qed
  then have g2: "grows n h1 h2" and f2: "\<forall>q \<in> set qs. fresh_value n h2 (snd q)" by simp_all
  have n2: "n \<le> length h2" using n1 grows_length [OF g2] by simp
  have f1': "\<forall>v \<in> set vs. fresh_value n h2 v"
    using f1 g2 by (blast intro: fresh_value_grows)
  have "\<forall>w \<in> values_of (HArray vs qs). fresh_value n (h2 @ [HArray vs qs]) w"
    using f1' f2 by (auto intro: fresh_value_mono)
  from grows_append [OF n2 this] g1 g2 n2 show ?case
    by (auto simp: v h' fresh_value_HRef intro: grows_trans)
next
  case (6 fs h)
  let ?f = "\<lambda>p g. case build (snd p) g of (v, g') \<Rightarrow> ((fst p, v), g')"
  obtain gs h1 where s1: "build_all ?f fs h = (gs, h1)" by (cases "build_all ?f fs h")
  from "6.prems"(2) s1 have v: "v = HRef (length h1)" and h': "h' = h1 @ [HObject gs]"
    by simp_all
  have a1: "grows n h h1 \<and> (\<forall>q \<in> set gs. fresh_value n h1 (snd q))"
  proof (rule build_all_grows [where f = ?f, OF _ "6.prems"(1) s1])
    fix x g w g' assume x: "x \<in> set fs" and g: "n \<le> length g" and w: "?f x g = (w, g')"
    obtain u where u: "build (snd x) g = (u, g')" and wu: "w = (fst x, u)"
      using w by (auto split: prod.splits)
    from "6.IH" [OF x g u] wu
    show "grows n g g' \<and> fresh_value n g' (snd w)" by simp
  qed
  then have g1: "grows n h h1" and f1: "\<forall>q \<in> set gs. fresh_value n h1 (snd q)" by simp_all
  have n1: "n \<le> length h1" using "6.prems"(1) grows_length [OF g1] by simp
  have "\<forall>w \<in> values_of (HObject gs). fresh_value n (h1 @ [HObject gs]) w"
    using f1 by (auto intro: fresh_value_mono)
  from grows_append [OF n1 this] g1 n1 show ?case
    by (auto simp: v h' fresh_value_HRef intro: grows_trans)
qed (auto simp: grows_refl fresh_value_def)

lemma formatLiteLLMResponse_h_grows:
  assumes "formatLiteLLMResponse_h data strictMode itemIndex h = (res, h')"
  shows "grows (length h) h h' \<and> (\<forall>v. res = Inr v \<longrightarrow> fresh_value (length h) h' v)"
proof (cases "stringify h [] data")
  case (Inl e)
  with assms show ?thesis by (auto simp: formatLiteLLMResponse_h_def grows_refl)
next
  case (Inr t)
  let ?n = "length h"
  obtain c h1 where b: "build t h = (c, h1)" by (cases "build t h")
  from build_grows [OF _ b, of ?n] have g1: "grows ?n h h1" and c: "fresh_value ?n h1 c"
    by simp_all
  have n1: "?n \<le> length h1" by (rule grows_length [OF g1])
  have c1: "closed_from ?n h1" by (rule grows_closed [OF g1 closed_from_length])
  show ?thesis
  proof (cases "get_prop_h h1 c ''choices''")
    case (Inl e)
    with assms Inr b g1 show ?thesis by (auto simp: formatLiteLLMResponse_h_def)
  next
    case p: (Inr p)
    show ?thesis
    proof (cases "truthy_opt_h p \<and> isArray_h h1 (the p)")
      case True
      then obtain a where pa: "p = Some a" by (cases p) auto
      from get_prop_h_fresh [OF c1 c] p pa have a: "fresh_value ?n h1 a" by simp
      have el: "\<forall>x \<in> set (elements_h h1 a). fresh_value ?n h1 x"
        using elements_h_fresh [OF c1 a] by blast
      obtain r2 h2 where l: "format_choices_h strictMode itemIndex 0 (elements_h h1 a) h1 = (r2, h2)"
        by (cases "format_choices_h strictMode itemIndex 0 (elements_h h1 a) h1")
      from format_choices_h_grows [OF n1 c1 el l] have g2: "grows ?n h1 h2" .
      from assms Inr b p True pa l have h': "h' = h2" and res: "\<forall>v. res = Inr v \<longrightarrow> v = c"
        by (auto simp: formatLiteLLMResponse_h_def split: option.splits)
      from g1 g2 have "grows ?n h h2" by (rule grows_trans)
      with res c g2 show ?thesis by (auto simp: h' intro: fresh_value_grows)
    next
      case False
      with assms Inr b p have "h' = h1" and "\<forall>v. res = Inr v \<longrightarrow> v = c"
        by (auto simp: formatLiteLLMResponse_h_def split: if_splits)
      with g1 c show ?thesis by auto
    qed
  qed
qed

lemma reaches_fresh:
  "reaches h v a \<Longrightarrow> closed_from n h \<Longrightarrow> fresh_value n h v \<Longrightarrow> n \<le> a \<and> a < length h"
proof (induction rule: reaches.induct)
  case (here a)
  then show ?case by (simp add: fresh_value_HRef)
next
  case (step a v b)
  from step.prems(2) have "n \<le> a" by (simp add: fresh_value_HRef)
  with step.hyps(1,2) step.prems(1) have "fresh_value n h v" by (auto simp: closed_from_def)
  with step.IH step.prems(1) show ?case by simp
qed

lemma sequence_map_agree:
  "sequence (map f xs) = Inr ys \<Longrightarrow> (\<And>x t. x \<in> set xs \<Longrightarrow> f x = Inr t \<Longrightarrow> g x = Inr t) \<Longrightarrow>
   sequence (map g xs) = Inr ys"
proof (induction xs arbitrary: ys)
  case Nil
  then show ?case by simp
next
  case (Cons x xs)
  from Cons.prems(1) obtain t ts where t: "f x = Inr t" and ts: "sequence (map f xs) = Inr ts"
    and ys: "ys = t # ts"
    by (auto split: sum.splits)
  from Cons.prems(2) [OF _ t] have "g x = Inr t" by simp
  moreover have "sequence (map g xs) = Inr ts"
    using Cons.prems(2) by (intro Cons.IH [OF ts]) simp_all
  ultimately show ?case by (simp add: ys)
qed

lemma stringify_extend:
  "stringify h stack v = Inr t \<Longrightarrow> take (length h) h' = h \<Longrightarrow> stringify h' stack v = Inr t"
proof (induction h stack v arbitrary: t rule: stringify.induct)
  case (5 h stack a)
  from "5.prems"(1) have a: "a \<notin> set stack" "a < length h"
    by (auto split: if_splits)
  from "5.prems"(2) have len: "length h \<le> length h'"
    by (metis length_take min.cobounded1)
  from "5.prems"(2) a(2) have cell: "h' ! a = h ! a"
    by (metis nth_take)
  have guard: "\<not> (a \<in> set stack \<or> length h \<le> a)" using a by simp
  show ?case
  proof (cases "h ! a")
    case (HArray xs ps)
    from "5.prems"(1) a HArray obtain ys
      where ys: "sequence (map (stringify h (a # stack)) xs) = Inr ys" and t: "t = JArr ys []"
      by (auto split: sum.splits)
    have "sequence (map (stringify h' (a # stack)) xs) = Inr ys"
    proof (rule sequence_map_agree [OF ys])
      fix x u assume "x \<in> set xs" and "stringify h (a # stack) x = Inr u"
      then show "stringify h' (a # stack) x = Inr u"
        using "5.IH"(1) [OF guard HArray] "5.prems"(2) by blast
    qed
    with a len cell HArray t show ?thesis by simp
  next
    case (HObject fs)
    from "5.prems"(1) a HObject obtain ys
      where ys: "sequence (map (\<lambda>f. stringify h (a # stack) (snd f)) fs) = Inr ys"
        and t: "t = JObj (zip (map fst fs) ys)"
      by (auto split: sum.splits)
    have "sequence (map (\<lambda>f. stringify h' (a # stack) (snd f)) fs) = Inr ys"
    proof (rule sequence_map_agree [OF ys])
      fix x u assume "x \<in> set fs" and "stringify h (a # stack) (snd x) = Inr u"
      then show "stringify h' (a # stack) (snd x) = Inr u"
        using "5.IH"(2) [OF guard HObject] "5.prems"(2) by blast
    qed
    with a len cell HObject t show ?thesis by simp
  qed
qed simp_all

section \<open>The store: the copy reads as the input\<close>

lemma sequence_Inr: "sequence (map Inr ys) = Inr ys"
  by (induction ys) auto

lemma sequence_Inr_iff:
  "sequence rs = Inr ys \<longleftrightarrow> rs = map Inr ys"
proof
  show "sequence rs = Inr ys \<Longrightarrow> rs = map Inr ys"
    by (induction rs arbitrary: ys) (auto split: sum.splits)
next
  show "rs = map Inr ys \<Longrightarrow> sequence rs = Inr ys"
    by (simp add: sequence_Inr)
qed

lemma sequence_map_Inr:
  "(\<And>x. x \<in> set xs \<Longrightarrow> f x = Inr (g x)) \<Longrightarrow> sequence (map f xs) = Inr (map g xs)"
  by (induction xs) auto

lemma stringify_is_json: "stringify h stack v = Inr t \<Longrightarrow> is_json t"
proof (induction h stack v arbitrary: t rule: stringify.induct)
  case (5 h stack a)
  from "5.prems" have guard: "\<not> (a \<in> set stack \<or> length h \<le> a)"
    by (auto split: if_splits)
  show ?case
  proof (cases "h ! a")
    case (HArray xs ps)
    from "5.prems" guard HArray obtain ys
      where ys: "sequence (map (stringify h (a # stack)) xs) = Inr ys" and t: "t = JArr ys []"
      by (auto split: sum.splits)
    from ys have m: "map (stringify h (a # stack)) xs = map Inr ys" by (simp add: sequence_Inr_iff)
    have "list_all is_json ys"
      unfolding list_all_length
    proof (intro allI impI)
      fix k assume k: "k < length ys"
      from m have len: "length xs = length ys" by (metis length_map)
      from m k len have "stringify h (a # stack) (xs ! k) = Inr (ys ! k)"
        by (metis nth_map)
      moreover from k len have "xs ! k \<in> set xs" by simp
      ultimately show "is_json (ys ! k)" using "5.IH"(1) [OF guard HArray] by blast
    qed
    with t show ?thesis by simp
  next
    case (HObject fs)
    from "5.prems" guard HObject obtain ys
      where ys: "sequence (map (\<lambda>f. stringify h (a # stack) (snd f)) fs) = Inr ys"
        and t: "t = JObj (zip (map fst fs) ys)"
      by (auto split: sum.splits)
    from ys have m: "map (\<lambda>f. stringify h (a # stack) (snd f)) fs = map Inr ys"
      by (simp add: sequence_Inr_iff)
    have "list_all is_json ys"
      unfolding list_all_length
    proof (intro allI impI)
      fix k assume k: "k < length ys"
      from m have len: "length fs = length ys" by (metis length_map)
      from m k len have "stringify h (a # stack) (snd (fs ! k)) = Inr (ys ! k)"
        by (metis (mono_tags, lifting) nth_map)
      moreover from k len have "fs ! k \<in> set fs" by simp
      ultimately show "is_json (ys ! k)" using "5.IH"(2) [OF guard HObject] by blast
    qed
    then have "list_all (\<lambda>(k, v). is_json v) (zip (map fst fs) ys)"
      by (auto simp: list_all_iff dest: set_zip_rightD)
    with t show ?thesis by simp
  qed
qed auto


lemma build_prefix: "build t h = (v, h') \<Longrightarrow> take (length h) h' = h \<and> length h \<le> length h'"
  using build_grows [of "length h" h t v h'] by (simp add: grows_def)

lemma prefix_chain:
  "take (length h1) h2 = h1 \<Longrightarrow> take (length h2) g = h2 \<Longrightarrow> take (length h1) g = h1"
  by (metis length_take min.cobounded1 min_def take_take)

lemma prefix_length: "take (length h) g = h \<Longrightarrow> length h \<le> length g"
  by (metis length_take min.cobounded1)

lemma build_all_prefix:
  assumes "\<And>x k v k'. x \<in> set xs \<Longrightarrow> f x k = (v, k') \<Longrightarrow> take (length k) k' = k"
    and "build_all f xs h = (vs, h')"
  shows "take (length h) h' = h"
  using assms
proof (induction xs arbitrary: h vs)
  case Nil
  then show ?case by simp
next
  case (Cons x xs)
  obtain v h1 where s1: "f x h = (v, h1)" by (cases "f x h")
  obtain ws h2 where s2: "build_all f xs h1 = (ws, h2)" by (cases "build_all f xs h1")
  from Cons.prems(2) s1 s2 have h': "h' = h2" by simp
  have p1: "take (length h) h1 = h" using Cons.prems(1) [OF _ s1] by simp
  have "take (length h1) h' = h1"
  proof (rule Cons.IH)
    fix y k w k' assume "y \<in> set xs" and "f y k = (w, k')"
    then show "take (length k) k' = k" using Cons.prems(1) [of y k w k'] by simp
  next
    show "build_all f xs h1 = (ws, h')" using s2 by (simp add: h')
  qed
  with p1 show ?case by (rule prefix_chain)
qed

lemma build_field_prefix:
  "(case build (snd p) k of (v, g') \<Rightarrow> ((fst p, v), g')) = (w, k') \<Longrightarrow> take (length k) k' = k"
  using build_prefix by (auto split: prod.splits)

lemma build_all_read:
  assumes "\<And>x k v k' stack. x \<in> set xs \<Longrightarrow> f x k = (v, k') \<Longrightarrow> take (length k') g = k' \<Longrightarrow>
             \<forall>a \<in> set stack. a < length k \<or> length k' \<le> a \<Longrightarrow>
             stringify g stack (val v) = Inr (deep_clone (tree x))"
    and "\<And>x k v k'. x \<in> set xs \<Longrightarrow> f x k = (v, k') \<Longrightarrow> take (length k) k' = k"
    and "build_all f xs h = (vs, h')" and "take (length h') g = h'"
    and "\<forall>a \<in> set stack. a < length h \<or> length h' \<le> a"
  shows "sequence (map (\<lambda>v. stringify g stack (val v)) vs) = Inr (map (\<lambda>x. deep_clone (tree x)) xs)"
  using assms
proof (induction xs arbitrary: h vs)
  case Nil
  then show ?case by simp
next
  case (Cons x xs)
  obtain v h1 where s1: "f x h = (v, h1)" by (cases "f x h")
  obtain ws h2 where s2: "build_all f xs h1 = (ws, h2)" by (cases "build_all f xs h1")
  from Cons.prems(3) s1 s2 have vs: "vs = v # ws" and h': "h' = h2" by simp_all
  have s2': "build_all f xs h1 = (ws, h')" using s2 by (simp add: h')
  have p1: "take (length h) h1 = h" using Cons.prems(2) [OF _ s1] by simp
  have l1: "length h \<le> length h1" by (rule prefix_length [OF p1])
  have p2: "take (length h1) h' = h1"
  proof (rule build_all_prefix [OF _ s2'])
    fix y k w k' assume "y \<in> set xs" and "f y k = (w, k')"
    then show "take (length k) k' = k" using Cons.prems(2) [of y k w k'] by simp
  qed
  have l2: "length h1 \<le> length h'" by (rule prefix_length [OF p2])
  have stack2: "\<forall>a \<in> set stack. a < length h1 \<or> length h' \<le> a"
    using Cons.prems(5) l1 by auto
  have rest: "sequence (map (\<lambda>v. stringify g stack (val v)) ws) =
                Inr (map (\<lambda>x. deep_clone (tree x)) xs)"
  proof (rule Cons.IH [OF _ _ s2' Cons.prems(4) stack2])
    fix y k w k' st
    assume "y \<in> set xs" and "f y k = (w, k')" and "take (length k') g = k'"
      and "\<forall>a \<in> set st. a < length k \<or> length k' \<le> a"
    then show "stringify g st (val w) = Inr (deep_clone (tree y))"
      using Cons.prems(1) [of y k w k' st] by simp
  next
    fix y k w k' assume "y \<in> set xs" and "f y k = (w, k')"
    then show "take (length k) k' = k" using Cons.prems(2) [of y k w k'] by simp
  qed
  have g1: "take (length h1) g = h1" using p2 Cons.prems(4) by (rule prefix_chain)
  have stack1: "\<forall>a \<in> set stack. a < length h \<or> length h1 \<le> a"
    using Cons.prems(5) l2 by auto
  have "stringify g stack (val v) = Inr (deep_clone (tree x))"
    using Cons.prems(1) [OF _ s1 g1 stack1] by simp
  with rest show ?case by (simp add: vs)
qed

lemma build_all_keys:
  "build_all (\<lambda>p g. case build (snd p) g of (v, g') \<Rightarrow> ((fst p, v), g')) fs h = (gs, h') \<Longrightarrow>
   map fst gs = map fst fs"
  by (induction fs arbitrary: h gs) (auto split: prod.splits)

lemma build_all_length: "build_all f xs h = (vs, h') \<Longrightarrow> length vs = length xs"
  by (induction xs arbitrary: h vs) (auto split: prod.splits)

lemma zip_keys_values:
  "zip (map fst fs) (map (\<lambda>x. f (snd x)) fs) = map (\<lambda>(k, v). (k, f v)) fs"
  by (induction fs) auto

lemma build_read:
  "build t h = (v, h') \<Longrightarrow> take (length h') g = h' \<Longrightarrow>
   \<forall>a \<in> set stack. a < length h \<or> length h' \<le> a \<Longrightarrow>
   stringify g stack v = Inr (deep_clone t)"
proof (induction t h arbitrary: v h' stack rule: build.induct)
  case (5 xs ps h)
  let ?f = "\<lambda>p g. case build (snd p) g of (v, g') \<Rightarrow> ((fst p, v), g')"
  obtain vs h1 where s1: "build_all build xs h = (vs, h1)" by (cases "build_all build xs h")
  obtain qs h2 where s2: "build_all ?f ps h1 = (qs, h2)" by (cases "build_all ?f ps h1")
  from "5.prems"(1) s1 s2 have v: "v = HRef (length h2)" and h': "h' = h2 @ [HArray vs qs]"
    by simp_all
  have g2: "take (length h2) g = h2"
    using "5.prems"(2) by (intro prefix_chain [of h2 h' g]) (simp_all add: h')
  have lg: "length h2 < length g" using prefix_length [OF "5.prems"(2)] by (simp add: h')
  have cell: "g ! length h2 = HArray vs qs"
    using "5.prems"(2) by (metis h' length_append_singleton lessI nth_append_length nth_take)
  have p2: "take (length h1) h2 = h1"
    using build_field_prefix by (rule build_all_prefix [OF _ s2])
  have l2: "length h1 \<le> length h2" by (rule prefix_length [OF p2])
  have g1: "take (length h1) g = h1" using p2 g2 by (rule prefix_chain)
  have p1: "take (length h) h1 = h"
  proof (rule build_all_prefix [OF _ s1])
    fix x k w k' assume "build x k = (w, k')"
    then show "take (length k) k' = k" using build_prefix by blast
  qed
  have l1: "length h \<le> length h1" by (rule prefix_length [OF p1])
  have nin: "length h2 \<notin> set stack"
    using "5.prems"(3) l1 l2 by (auto simp: h')
  have stack1: "\<forall>a \<in> set (length h2 # stack). a < length h \<or> length h1 \<le> a"
    using "5.prems"(3) l2 by (auto simp: h')
  have "sequence (map (\<lambda>v. stringify g (length h2 # stack) ((\<lambda>v. v) v)) vs) =
          Inr (map (\<lambda>x. deep_clone ((\<lambda>x. x) x)) xs)"
  proof (rule build_all_read [where f = build, OF _ _ s1 g1 stack1])
    fix x k w k' st
    assume "x \<in> set xs" and "build x k = (w, k')" and "take (length k') g = k'"
      and "\<forall>a \<in> set st. a < length k \<or> length k' \<le> a"
    then show "stringify g st w = Inr (deep_clone x)" by (rule "5.IH"(1))
  next
    fix x k w k' assume "build x k = (w, k')"
    then show "take (length k) k' = k" using build_prefix by blast
  qed
  then have "sequence (map (stringify g (length h2 # stack)) vs) = Inr (map deep_clone xs)"
    by simp
  with nin lg cell show ?case by (simp add: v)
next
  case (6 fs h)
  let ?f = "\<lambda>p g. case build (snd p) g of (v, g') \<Rightarrow> ((fst p, v), g')"
  obtain gs h1 where s1: "build_all ?f fs h = (gs, h1)" by (cases "build_all ?f fs h")
  from "6.prems"(1) s1 have v: "v = HRef (length h1)" and h': "h' = h1 @ [HObject gs]"
    by simp_all
  have g1: "take (length h1) g = h1"
    using "6.prems"(2) by (intro prefix_chain [of h1 h' g]) (simp_all add: h')
  have lg: "length h1 < length g" using prefix_length [OF "6.prems"(2)] by (simp add: h')
  have cell: "g ! length h1 = HObject gs"
    using "6.prems"(2) by (metis h' length_append_singleton lessI nth_append_length nth_take)
  have stack1: "\<forall>a \<in> set (length h1 # stack). a < length h \<or> length h1 \<le> a"
    using "6.prems"(3) by (auto simp: h')
  have p1: "take (length h) h1 = h"
    using build_field_prefix by (rule build_all_prefix [OF _ s1])
  have r: "sequence (map (\<lambda>v. stringify g (length h1 # stack) (snd v)) gs) =
          Inr (map (\<lambda>x. deep_clone (snd x)) fs)"
  proof (rule build_all_read [where f = ?f, OF _ _ s1 g1 stack1])
    fix x k w k' st
    assume x: "x \<in> set fs" and w: "?f x k = (w, k')" and k': "take (length k') g = k'"
      and st: "\<forall>a \<in> set st. a < length k \<or> length k' \<le> a"
    obtain u where u: "build (snd x) k = (u, k')" and wu: "w = (fst x, u)"
      using w by (auto split: prod.splits)
    from "6.IH" [OF x u k' st] wu show "stringify g st (snd w) = Inr (deep_clone (snd x))"
      by simp
  next
    fix x k w k' assume "?f x k = (w, k')"
    then show "take (length k) k' = k" using build_prefix by (auto split: prod.splits)
  qed
  have nin: "length h1 \<notin> set stack"
    using "6.prems"(3) prefix_length [OF p1] by (auto simp: h')
  from r nin lg cell build_all_keys [OF s1] show ?case
    by (simp add: v zip_keys_values)
qed auto

lemma cloned_data_reads_as_data:
  assumes "stringify h [] data = Inr t" and "build t h = (clonedData, h1)"
  shows "stringify h1 [] clonedData = Inr t"
  using build_read [OF assms(2), of h1 "[]"] deep_clone_json [OF stringify_is_json [OF assms(1)]]
  by simp

section \<open>The store: the run computes formatLiteLLMResponse\<close>

lemmas rep_objI = rep_obj
lemmas rep_arrI = rep_arr

lemma rep_cases:
  assumes "rep h A v t"
  obtains (null) "v = HNull" "t = JNull"
  | (bool) b where "v = HBool b" "t = JBool b"
  | (num) n where "v = HNum n" "t = JNum n"
  | (str) s where "v = HStr s" "t = JStr s"
  | (obj) a gs fs where "v = HRef a" "t = JObj fs" "a \<in> A" "a < length h"
      "h ! a = HObject gs" "rep_fields h (A - {a}) gs fs"
  | (arr) a vs qs A1 xs A2 ps where "v = HRef a" "t = JArr xs ps" "a \<in> A" "a < length h"
      "h ! a = HArray vs qs" "rep_list h A1 vs xs" "rep_fields h A2 qs ps"
      "A1 \<inter> A2 = {}" "A1 \<union> A2 \<subseteq> A - {a}"
  using assms by (cases rule: rep.cases) auto

lemma rep_mono_all:
  "(rep h A v t \<longrightarrow> (\<forall>B. A \<subseteq> B \<longrightarrow> rep h B v t)) \<and>
   (rep_list h A vs xs \<longrightarrow> (\<forall>B. A \<subseteq> B \<longrightarrow> rep_list h B vs xs)) \<and>
   (rep_fields h A gs fs \<longrightarrow> (\<forall>B. A \<subseteq> B \<longrightarrow> rep_fields h B gs fs))"
proof (rule rep_rep_list_rep_fields.induct)
  fix a A gs fs
  assume a: "a \<in> A" "a < length h" "h ! a = HObject gs"
    and IH: "\<forall>B. A - {a} \<subseteq> B \<longrightarrow> rep_fields h B gs fs"
  show "\<forall>B. A \<subseteq> B \<longrightarrow> rep h B (HRef a) (JObj fs)"
  proof (intro allI impI)
    fix B assume AB: "A \<subseteq> B"
    then have "A - {a} \<subseteq> B - {a}" by auto
    with IH have "rep_fields h (B - {a}) gs fs" by blast
    moreover from AB a have "a \<in> B" by auto
    ultimately show "rep h B (HRef a) (JObj fs)" using a by (intro rep_obj)
  qed
next
  fix a A vs qs A1 xs A2 ps
  assume "a \<in> A" "a < length h" "h ! a = HArray vs qs" "rep_list h A1 vs xs"
    "rep_fields h A2 qs ps" "A1 \<inter> A2 = {}" "A1 \<union> A2 \<subseteq> A - {a}"
  then show "\<forall>B. A \<subseteq> B \<longrightarrow> rep h B (HRef a) (JArr xs ps)"
    by (auto intro!: rep_arr)
next
  fix A1 v x A2 vs xs A
  assume "rep h A1 v x" "rep_list h A2 vs xs" "A1 \<inter> A2 = {}" "A1 \<union> A2 \<subseteq> A"
  then show "\<forall>B. A \<subseteq> B \<longrightarrow> rep_list h B (v # vs) (x # xs)"
    by (auto intro!: rep_cons)
next
  fix A1 v x A2 gs fs A k
  assume "rep h A1 v x" "rep_fields h A2 gs fs" "A1 \<inter> A2 = {}" "A1 \<union> A2 \<subseteq> A"
  then show "\<forall>B. A \<subseteq> B \<longrightarrow> rep_fields h B ((k, v) # gs) ((k, x) # fs)"
    by (auto intro!: rep_fcons)
qed (auto intro: rep_rep_list_rep_fields.intros)

lemma rep_mono: "rep h A v t \<Longrightarrow> A \<subseteq> B \<Longrightarrow> rep h B v t"
  and rep_list_mono: "rep_list h A vs xs \<Longrightarrow> A \<subseteq> B \<Longrightarrow> rep_list h B vs xs"
  and rep_fields_mono: "rep_fields h A gs fs \<Longrightarrow> A \<subseteq> B \<Longrightarrow> rep_fields h B gs fs"
  using rep_mono_all by blast+

lemma rep_frame_all:
  "(rep h A v t \<longrightarrow> (\<forall>a \<in> A. a < length h' \<and> h' ! a = h ! a) \<longrightarrow> rep h' A v t) \<and>
   (rep_list h A vs xs \<longrightarrow> (\<forall>a \<in> A. a < length h' \<and> h' ! a = h ! a) \<longrightarrow> rep_list h' A vs xs) \<and>
   (rep_fields h A gs fs \<longrightarrow> (\<forall>a \<in> A. a < length h' \<and> h' ! a = h ! a) \<longrightarrow>
      rep_fields h' A gs fs)"
proof (rule rep_rep_list_rep_fields.induct)
  fix a A gs fs
  assume a: "a \<in> A" "a < length h" "h ! a = HObject gs"
    and IH: "(\<forall>b \<in> A - {a}. b < length h' \<and> h' ! b = h ! b) \<longrightarrow> rep_fields h' (A - {a}) gs fs"
  show "(\<forall>b \<in> A. b < length h' \<and> h' ! b = h ! b) \<longrightarrow> rep h' A (HRef a) (JObj fs)"
  proof
    assume ag: "\<forall>b \<in> A. b < length h' \<and> h' ! b = h ! b"
    with a have "a < length h'" and "h' ! a = HObject gs" by auto
    moreover from ag IH have "rep_fields h' (A - {a}) gs fs" by auto
    ultimately show "rep h' A (HRef a) (JObj fs)" using a(1) by (intro rep_obj)
  qed
next
  fix a A vs qs A1 xs A2 ps
  assume a: "a \<in> A" "a < length h" "h ! a = HArray vs qs"
    and IH1: "(\<forall>b \<in> A1. b < length h' \<and> h' ! b = h ! b) \<longrightarrow> rep_list h' A1 vs xs"
    and IH2: "(\<forall>b \<in> A2. b < length h' \<and> h' ! b = h ! b) \<longrightarrow> rep_fields h' A2 qs ps"
    and d: "A1 \<inter> A2 = {}" "A1 \<union> A2 \<subseteq> A - {a}"
  show "(\<forall>b \<in> A. b < length h' \<and> h' ! b = h ! b) \<longrightarrow> rep h' A (HRef a) (JArr xs ps)"
  proof
    assume ag: "\<forall>b \<in> A. b < length h' \<and> h' ! b = h ! b"
    with a have "a < length h'" and "h' ! a = HArray vs qs" by auto
    moreover from ag d IH1 have "rep_list h' A1 vs xs" by auto
    moreover from ag d IH2 have "rep_fields h' A2 qs ps" by auto
    ultimately show "rep h' A (HRef a) (JArr xs ps)" using a(1) d by (intro rep_arr)
  qed
next
  fix A1 v x A2 vs xs A
  assume "(\<forall>b \<in> A1. b < length h' \<and> h' ! b = h ! b) \<longrightarrow> rep h' A1 v x"
    "(\<forall>b \<in> A2. b < length h' \<and> h' ! b = h ! b) \<longrightarrow> rep_list h' A2 vs xs"
    "A1 \<inter> A2 = {}" "A1 \<union> A2 \<subseteq> A"
  then show "(\<forall>b \<in> A. b < length h' \<and> h' ! b = h ! b) \<longrightarrow> rep_list h' A (v # vs) (x # xs)"
    by (auto intro!: rep_cons)
next
  fix A1 v x A2 gs fs A k
  assume "(\<forall>b \<in> A1. b < length h' \<and> h' ! b = h ! b) \<longrightarrow> rep h' A1 v x"
    "(\<forall>b \<in> A2. b < length h' \<and> h' ! b = h ! b) \<longrightarrow> rep_fields h' A2 gs fs"
    "A1 \<inter> A2 = {}" "A1 \<union> A2 \<subseteq> A"
  then show "(\<forall>b \<in> A. b < length h' \<and> h' ! b = h ! b) \<longrightarrow>
      rep_fields h' A ((k, v) # gs) ((k, x) # fs)"
    by (auto intro!: rep_fcons)
qed (auto intro: rep_rep_list_rep_fields.intros)

lemma rep_frame: "rep h A v t \<Longrightarrow> \<forall>a \<in> A. a < length h' \<and> h' ! a = h ! a \<Longrightarrow> rep h' A v t"
  and rep_list_frame:
    "rep_list h A vs xs \<Longrightarrow> \<forall>a \<in> A. a < length h' \<and> h' ! a = h ! a \<Longrightarrow> rep_list h' A vs xs"
  and rep_fields_frame:
    "rep_fields h A gs fs \<Longrightarrow> \<forall>a \<in> A. a < length h' \<and> h' ! a = h ! a \<Longrightarrow> rep_fields h' A gs fs"
  using rep_frame_all by blast+

lemma rep_read_all:
  "(rep h A v t \<longrightarrow> (\<forall>st. set st \<inter> A = {} \<longrightarrow> stringify h st v = Inr (deep_clone t))) \<and>
   (rep_list h A vs xs \<longrightarrow>
      (\<forall>st. set st \<inter> A = {} \<longrightarrow> sequence (map (stringify h st) vs) = Inr (map deep_clone xs))) \<and>
   (rep_fields h A gs fs \<longrightarrow>
      (\<forall>st. set st \<inter> A = {} \<longrightarrow>
         sequence (map (\<lambda>f. stringify h st (snd f)) gs) = Inr (map (\<lambda>f. deep_clone (snd f)) fs) \<and>
         map fst gs = map fst fs))"
proof (rule rep_rep_list_rep_fields.induct)
  fix a A gs fs
  assume a: "a \<in> A" "a < length h" "h ! a = HObject gs"
    and IH: "\<forall>st. set st \<inter> (A - {a}) = {} \<longrightarrow>
         sequence (map (\<lambda>f. stringify h st (snd f)) gs) = Inr (map (\<lambda>f. deep_clone (snd f)) fs) \<and>
         map fst gs = map fst fs"
  show "\<forall>st. set st \<inter> A = {} \<longrightarrow> stringify h st (HRef a) = Inr (deep_clone (JObj fs))"
  proof (intro allI impI)
    fix st assume st: "set st \<inter> A = {}"
    then have "set (a # st) \<inter> (A - {a}) = {}" by auto
    with IH have "sequence (map (\<lambda>f. stringify h (a # st) (snd f)) gs) =
        Inr (map (\<lambda>f. deep_clone (snd f)) fs)" and "map fst gs = map fst fs"
      by blast+
    moreover from st a(1) have "a \<notin> set st" by auto
    ultimately show "stringify h st (HRef a) = Inr (deep_clone (JObj fs))"
      using a(2,3) by (simp add: zip_keys_values)
  qed
next
  fix a A vs qs A1 xs A2 ps
  assume a: "a \<in> A" "a < length h" "h ! a = HArray vs qs"
    and IH: "\<forall>st. set st \<inter> A1 = {} \<longrightarrow>
        sequence (map (stringify h st) vs) = Inr (map deep_clone xs)"
    and d: "A1 \<union> A2 \<subseteq> A - {a}"
  show "\<forall>st. set st \<inter> A = {} \<longrightarrow> stringify h st (HRef a) = Inr (deep_clone (JArr xs ps))"
  proof (intro allI impI)
    fix st assume st: "set st \<inter> A = {}"
    with d have "set (a # st) \<inter> A1 = {}" by auto
    with IH have "sequence (map (stringify h (a # st)) vs) = Inr (map deep_clone xs)" by blast
    moreover from st a(1) have "a \<notin> set st" by auto
    ultimately show "stringify h st (HRef a) = Inr (deep_clone (JArr xs ps))"
      using a(2,3) by simp
  qed
next
  fix A1 v x A2 vs xs A
  assume "\<forall>st. set st \<inter> A1 = {} \<longrightarrow> stringify h st v = Inr (deep_clone x)"
    "\<forall>st. set st \<inter> A2 = {} \<longrightarrow> sequence (map (stringify h st) vs) = Inr (map deep_clone xs)"
    "A1 \<union> A2 \<subseteq> A"
  then show "\<forall>st. set st \<inter> A = {} \<longrightarrow>
      sequence (map (stringify h st) (v # vs)) = Inr (map deep_clone (x # xs))"
    by (auto simp: Int_commute disjoint_iff subset_iff)
next
  fix A1 v x A2 gs fs A k
  assume 1: "\<forall>st. set st \<inter> A1 = {} \<longrightarrow> stringify h st v = Inr (deep_clone x)"
    and 2: "\<forall>st. set st \<inter> A2 = {} \<longrightarrow>
         sequence (map (\<lambda>f. stringify h st (snd f)) gs) = Inr (map (\<lambda>f. deep_clone (snd f)) fs) \<and>
         map fst gs = map fst fs"
    and d: "A1 \<union> A2 \<subseteq> A"
  show "\<forall>st. set st \<inter> A = {} \<longrightarrow>
         sequence (map (\<lambda>f. stringify h st (snd f)) ((k, v) # gs)) =
           Inr (map (\<lambda>f. deep_clone (snd f)) ((k, x) # fs)) \<and>
         map fst ((k, v) # gs) = map fst ((k, x) # fs)"
  proof (intro allI impI)
    fix st assume "set st \<inter> A = {}"
    with d have "set st \<inter> A1 = {}" and "set st \<inter> A2 = {}" by auto
    with 1 2 show "sequence (map (\<lambda>f. stringify h st (snd f)) ((k, v) # gs)) =
           Inr (map (\<lambda>f. deep_clone (snd f)) ((k, x) # fs)) \<and>
         map fst ((k, v) # gs) = map fst ((k, x) # fs)"
      by simp
  qed
qed simp_all

lemma rep_read: "rep h A v t \<Longrightarrow> set st \<inter> A = {} \<Longrightarrow> stringify h st v = Inr (deep_clone t)"
  using rep_read_all by blast


lemma prefix_nth: "take (length h) h' = h \<Longrightarrow> a < length h \<Longrightarrow> a < length h' \<and> h' ! a = h ! a"
  by (metis length_take min_less_iff_conj nth_take)

lemma build_all_rep:
  assumes "\<And>x k v k'. x \<in> set xs \<Longrightarrow> f x k = (v, k') \<Longrightarrow>
             take (length k) k' = k \<and> rep k' {length k..<length k'} (val v) (tree x)"
    and "build_all f xs h = (vs, h')"
  shows "rep_list h' {length h..<length h'} (map val vs) (map tree xs) \<and> take (length h) h' = h"
  using assms
proof (induction xs arbitrary: h vs h')
  case Nil
  then show ?case by (simp add: rep_nil)
next
  case (Cons x xs)
  obtain v h1 where s1: "f x h = (v, h1)" by (cases "f x h")
  obtain ws h2 where s2: "build_all f xs h1 = (ws, h2)" by (cases "build_all f xs h1")
  from Cons.prems(2) s1 s2 have vs: "vs = v # ws" and h': "h' = h2" by simp_all
  from Cons.prems(1) [OF _ s1] have p1: "take (length h) h1 = h"
    and r1: "rep h1 {length h..<length h1} (val v) (tree x)" by simp_all
  have "rep_list h2 {length h1..<length h2} (map val ws) (map tree xs) \<and> take (length h1) h2 = h1"
  proof (rule Cons.IH [OF _ s2])
    fix y k w k' assume "y \<in> set xs" and "f y k = (w, k')"
    then show "take (length k) k' = k \<and> rep k' {length k..<length k'} (val w) (tree y)"
      using Cons.prems(1) [of y k w k'] by simp
  qed
  then have r2: "rep_list h2 {length h1..<length h2} (map val ws) (map tree xs)"
    and p2: "take (length h1) h2 = h1" by simp_all
  have l1: "length h \<le> length h1" by (rule prefix_length [OF p1])
  have l2: "length h1 \<le> length h2" by (rule prefix_length [OF p2])
  have "rep h2 {length h..<length h1} (val v) (tree x)"
    using r1 prefix_nth [OF p2] by (intro rep_frame [OF r1]) auto
  with r2 have "rep_list h2 {length h..<length h2} (val v # map val ws) (tree x # map tree xs)"
    using l1 l2 by (intro rep_cons [where ?A1.0 = "{length h..<length h1}"
          and ?A2.0 = "{length h1..<length h2}"]) auto
  moreover have "take (length h) h2 = h" using p1 p2 by (rule prefix_chain)
  ultimately show ?case by (simp add: vs h')
qed

lemma rep_list_fields:
  "rep_list h A (map snd gs) (map snd fs) \<Longrightarrow> map fst gs = map fst fs \<Longrightarrow> rep_fields h A gs fs"
proof (induction gs arbitrary: fs A)
  case Nil
  then show ?case by (simp add: rep_fnil)
next
  case (Cons g gs)
  from Cons.prems(2) obtain f fs' where fs: "fs = f # fs'" and k: "fst g = fst f"
    and ks: "map fst gs = map fst fs'"
    by (cases fs) auto
  from Cons.prems(1) fs obtain A1 A2 where r: "rep h A1 (snd g) (snd f)"
    and rs: "rep_list h A2 (map snd gs) (map snd fs')" and d: "A1 \<inter> A2 = {}" "A1 \<union> A2 \<subseteq> A"
    by (auto elim: rep_list.cases)
  from Cons.IH [OF rs ks] r d k show ?case
    unfolding fs by (cases g; cases f) (auto intro: rep_fcons)
qed

lemma build_rep:
  "build t h = (v, h') \<Longrightarrow> rep h' {length h..<length h'} v t"
proof (induction t h arbitrary: v h' rule: build.induct)
  case (5 xs ps h)
  let ?f = "\<lambda>p g. case build (snd p) g of (v, g') \<Rightarrow> ((fst p, v), g')"
  obtain vs h1 where s1: "build_all build xs h = (vs, h1)" by (cases "build_all build xs h")
  obtain qs h2 where s2: "build_all ?f ps h1 = (qs, h2)" by (cases "build_all ?f ps h1")
  from "5.prems" s1 s2 have v: "v = HRef (length h2)" and h': "h' = h2 @ [HArray vs qs]"
    by simp_all
  have "rep_list h1 {length h..<length h1} (map (\<lambda>v. v) vs) (map (\<lambda>x. x) xs) \<and>
        take (length h) h1 = h"
  proof (rule build_all_rep [where f = build, OF _ s1])
    fix x k w k' assume "x \<in> set xs" and "build x k = (w, k')"
    then show "take (length k) k' = k \<and> rep k' {length k..<length k'} w x"
      using "5.IH"(1) build_prefix by blast
  qed
  then have r1: "rep_list h1 {length h..<length h1} vs xs" and p1: "take (length h) h1 = h"
    by simp_all
  have "rep_list h2 {length h1..<length h2} (map snd qs) (map snd ps) \<and>
        take (length h1) h2 = h1"
  proof (rule build_all_rep [where f = ?f, OF _ s2])
    fix x k w k' assume x: "x \<in> set ps" and w: "?f x k = (w, k')"
    obtain u where u: "build (snd x) k = (u, k')" and wu: "w = (fst x, u)"
      using w by (auto split: prod.splits)
    from "5.IH"(2) [OF s1 [symmetric] x u] build_prefix [OF u] wu
    show "take (length k) k' = k \<and> rep k' {length k..<length k'} (snd w) (snd x)" by simp
  qed
  then have r2: "rep_fields h2 {length h1..<length h2} qs ps" and p2: "take (length h1) h2 = h1"
    using build_all_keys [OF s2] by (simp_all add: rep_list_fields)
  have l1: "length h \<le> length h1" by (rule prefix_length [OF p1])
  have l2: "length h1 \<le> length h2" by (rule prefix_length [OF p2])
  have f1: "rep_list h' {length h..<length h1} vs xs"
  proof (rule rep_list_frame [OF r1], intro ballI)
    fix a assume "a \<in> {length h..<length h1}"
    then have "a < length h1" by simp
    from prefix_nth [OF p2 this] show "a < length h' \<and> h' ! a = h1 ! a"
      by (simp add: h' nth_append)
  qed
  have f2: "rep_fields h' {length h1..<length h2} qs ps"
    by (rule rep_fields_frame [OF r2]) (simp add: h' nth_append)
  show ?case
    unfolding v
    by (rule rep_arr [OF _ _ _ f1 f2]) (use l1 l2 in \<open>auto simp: h'\<close>)
next
  case (6 fs h)
  let ?f = "\<lambda>p g. case build (snd p) g of (v, g') \<Rightarrow> ((fst p, v), g')"
  obtain gs h1 where s1: "build_all ?f fs h = (gs, h1)" by (cases "build_all ?f fs h")
  from "6.prems" s1 have v: "v = HRef (length h1)" and h': "h' = h1 @ [HObject gs]"
    by simp_all
  have "rep_list h1 {length h..<length h1} (map snd gs) (map snd fs) \<and> take (length h) h1 = h"
  proof (rule build_all_rep [where f = ?f, OF _ s1])
    fix x k w k' assume x: "x \<in> set fs" and w: "?f x k = (w, k')"
    obtain u where u: "build (snd x) k = (u, k')" and wu: "w = (fst x, u)"
      using w by (auto split: prod.splits)
    from "6.IH" [OF x u] build_prefix [OF u] wu
    show "take (length k) k' = k \<and> rep k' {length k..<length k'} (snd w) (snd x)" by simp
  qed
  then have r1: "rep_fields h1 {length h..<length h1} gs fs" and p1: "take (length h) h1 = h"
    using build_all_keys [OF s1] by (simp_all add: rep_list_fields)
  have l1: "length h \<le> length h1" by (rule prefix_length [OF p1])
  have f1: "rep_fields h' {length h..<length h1} gs fs"
    by (rule rep_fields_frame [OF r1]) (simp add: h' nth_append)
  have "rep_fields h' ({length h..<length h'} - {length h1}) gs fs"
    by (rule rep_fields_mono [OF f1]) (auto simp: h')
  then show ?case
    unfolding v by (intro rep_obj) (use l1 in \<open>auto simp: h'\<close>)
qed (auto intro: rep_rep_list_rep_fields.intros)

lemma rep_truthy: "rep h A v t \<Longrightarrow> truthy_h v = truthy t"
  by (auto elim: rep.cases)

lemma rep_null_iff: "rep h A v t \<Longrightarrow> v = HNull \<longleftrightarrow> t = JNull"
  by (auto elim: rep.cases)

lemma rep_isArray: "rep h A v t \<Longrightarrow> isArray_h h v = isArray t"
  by (auto elim: rep.cases)

lemma rep_fields_keys: "rep_fields h A gs fs \<Longrightarrow> map fst gs = map fst fs"
  using rep_read_all [of h A] by (metis Int_empty_left empty_set)

lemma rep_fields_lookup_None: "rep_fields h A gs fs \<Longrightarrow> map_of gs k = None \<longleftrightarrow> map_of fs k = None"
  by (metis rep_fields_keys map_of_eq_None_iff set_map)

lemma rep_fields_update:
  "rep_fields h A gs fs \<Longrightarrow> rep h B v x \<Longrightarrow> A \<inter> B = {} \<Longrightarrow>
   rep_fields h (A \<union> B) (AList.update k v gs) (AList.update k x fs)"
proof (induction gs arbitrary: fs A)
  case Nil
  then have "fs = []" by (auto elim: rep_fields.cases)
  with Nil show ?case
    by (auto intro!: rep_fcons [where ?A1.0 = B and ?A2.0 = "{}"] rep_fnil)
next
  case (Cons g gs)
  from Cons.prems(1) obtain k' u y fs' A1 A2 where g: "g = (k', u)" and fs: "fs = (k', y) # fs'"
    and r: "rep h A1 u y" and rs: "rep_fields h A2 gs fs'" and d: "A1 \<inter> A2 = {}" "A1 \<union> A2 \<subseteq> A"
    by (auto elim: rep_fields.cases)
  show ?case
  proof (cases "k' = k")
    case True
    have "rep_fields h (A \<union> B) ((k, v) # gs) ((k, x) # fs')"
      using Cons.prems(2) rs d Cons.prems(3)
      by (intro rep_fcons [where ?A1.0 = B and ?A2.0 = A2]) auto
    with True show ?thesis by (simp add: g fs)
  next
    case False
    have "A2 \<inter> B = {}" using d Cons.prems(3) by auto
    from Cons.IH [OF rs Cons.prems(2) this]
    have "rep_fields h (A2 \<union> B) (AList.update k v gs) (AList.update k x fs')" .
    with r have "rep_fields h (A \<union> B) ((k', u) # AList.update k v gs) ((k', y) # AList.update k x fs')"
      using d Cons.prems(3) by (intro rep_fcons [where ?A1.0 = A1 and ?A2.0 = "A2 \<union> B"]) auto
    with False show ?thesis by (simp add: g fs)
  qed
qed

lemma rep_fields_context:
  "rep_fields h A gs fs \<Longrightarrow> map_of fs k = Some x \<Longrightarrow>
   \<exists>v Av. map_of gs k = Some v \<and> Av \<subseteq> A \<and> rep h Av v x \<and>
     (\<forall>h' B x'. (\<forall>a \<in> A - Av. a < length h' \<and> h' ! a = h ! a) \<longrightarrow> B \<inter> (A - Av) = {} \<longrightarrow>
        rep h' B v x' \<longrightarrow> rep_fields h' (A \<union> B) gs (AList.update k x' fs))"
proof (induction gs arbitrary: fs A)
  case Nil
  then have "fs = []" by (auto elim: rep_fields.cases)
  with Nil show ?case by simp
next
  case (Cons g gs)
  from Cons.prems(1) obtain k' u y fs' A1 A2 where g: "g = (k', u)" and fs: "fs = (k', y) # fs'"
    and r: "rep h A1 u y" and rs: "rep_fields h A2 gs fs'" and d: "A1 \<inter> A2 = {}" "A1 \<union> A2 \<subseteq> A"
    by (auto elim: rep_fields.cases)
  show ?case
  proof (cases "k' = k")
    case True
    with Cons.prems(2) fs have y: "y = x" by simp
    have "\<forall>h' B x'. (\<forall>a \<in> A - A1. a < length h' \<and> h' ! a = h ! a) \<longrightarrow> B \<inter> (A - A1) = {} \<longrightarrow>
        rep h' B u x' \<longrightarrow> rep_fields h' (A \<union> B) (g # gs) (AList.update k x' fs)"
    proof (intro allI impI)
      fix h' B x'
      assume ag: "\<forall>a \<in> A - A1. a < length h' \<and> h' ! a = h ! a" and B: "B \<inter> (A - A1) = {}"
        and u: "rep h' B u x'"
      have "rep_fields h' A2 gs fs'" using ag d by (intro rep_fields_frame [OF rs]) auto
      with u have "rep_fields h' (A \<union> B) ((k, u) # gs) ((k, x') # fs')"
        using B d by (intro rep_fcons [where ?A1.0 = B and ?A2.0 = A2]) auto
      with True show "rep_fields h' (A \<union> B) (g # gs) (AList.update k x' fs)"
        by (simp add: g fs)
    qed
    with True r d y show ?thesis by (intro exI [of _ u] exI [of _ A1]) (simp add: g)
  next
    case False
    with Cons.prems(2) fs have "map_of fs' k = Some x" by simp
    from Cons.IH [OF rs this] obtain v Av where v: "map_of gs k = Some v" and Av: "Av \<subseteq> A2"
      and rv: "rep h Av v x"
      and ctx: "\<forall>h' B x'. (\<forall>a \<in> A2 - Av. a < length h' \<and> h' ! a = h ! a) \<longrightarrow>
          B \<inter> (A2 - Av) = {} \<longrightarrow> rep h' B v x' \<longrightarrow>
          rep_fields h' (A2 \<union> B) gs (AList.update k x' fs')"
      by blast
    have "\<forall>h' B x'. (\<forall>a \<in> A - Av. a < length h' \<and> h' ! a = h ! a) \<longrightarrow> B \<inter> (A - Av) = {} \<longrightarrow>
        rep h' B v x' \<longrightarrow> rep_fields h' (A \<union> B) (g # gs) (AList.update k x' fs)"
    proof (intro allI impI)
      fix h' B x'
      assume ag: "\<forall>a \<in> A - Av. a < length h' \<and> h' ! a = h ! a" and B: "B \<inter> (A - Av) = {}"
        and u: "rep h' B v x'"
      have "rep h' A1 u y" using ag d Av by (intro rep_frame [OF r]) auto
      moreover have "rep_fields h' (A2 \<union> B) gs (AList.update k x' fs')"
        using ctx ag B u d by (auto simp: disjoint_iff subset_iff)
      ultimately have "rep_fields h' (A \<union> B) ((k', u) # gs) ((k', y) # AList.update k x' fs')"
        using B d Av by (intro rep_fcons [where ?A1.0 = A1 and ?A2.0 = "A2 \<union> B"]) auto
      with False show "rep_fields h' (A \<union> B) (g # gs) (AList.update k x' fs)"
        by (simp add: g fs)
    qed
    with False v Av rv d show ?thesis
      by (intro exI [of _ v] exI [of _ Av]) (auto simp: g)
  qed
qed


lemma rep_fields_null_test:
  assumes "rep_fields h A gs fs"
  shows "map_of gs k = Some HNull \<longleftrightarrow> map_of fs k = Some JNull"
proof (cases "map_of fs k")
  case None
  with rep_fields_lookup_None [OF assms, of k] show ?thesis by simp
next
  case (Some x)
  from rep_fields_context [OF assms Some] obtain v Av where "map_of gs k = Some v" "rep h Av v x"
    by blast
  with Some rep_null_iff show ?thesis by auto
qed

lemma with_properties_properties: "with_properties ob (properties ob) = ob"
  by (cases ob) simp_all

lemma properties_with_properties: "properties (with_properties ob ps) = ps"
  by (cases ob) simp_all

lemma with_properties_twice: "with_properties (with_properties ob ps) qs = with_properties ob qs"
  by (cases ob) simp_all

lemma same_but_refl: "same_but a h h"
  unfolding same_but_def by (metis le_refl with_properties_properties)

lemma same_but_trans:
  assumes "a < length h" and "same_but a h h1" and "same_but a h1 h2"
  shows "same_but a h h2"
proof -
  from assms(2) obtain ps where 1: "length h \<le> length h1"
    "\<forall>b < length h. b \<noteq> a \<longrightarrow> h1 ! b = h ! b" "h1 ! a = with_properties (h ! a) ps"
    by (auto simp: same_but_def)
  from assms(3) obtain qs where 2: "length h1 \<le> length h2"
    "\<forall>b < length h1. b \<noteq> a \<longrightarrow> h2 ! b = h1 ! b" "h2 ! a = with_properties (h1 ! a) qs"
    by (auto simp: same_but_def)
  from 1 2 have "h2 ! a = with_properties (h ! a) qs" by (simp add: with_properties_twice)
  moreover from 1 2 have "\<forall>b < length h. b \<noteq> a \<longrightarrow> h2 ! b = h ! b" by auto
  ultimately show ?thesis using 1(1) 2(1) unfolding same_but_def by (metis le_trans)
qed

lemma assign_new_rep:
  assumes "cell_rep h a F fs"
    and "(ob = HArray [] [] \<and> d = JArr [] []) \<or> (ob = HObject [] \<and> d = JObj [])"
  shows "\<exists>h'. assign_new (HRef a) k ob h = (None, h') \<and> same_but a h h' \<and>
           cell_rep h' a (F \<union> {length h..<length h'}) (AList.update k d fs)"
proof -
  let ?n = "length h"
  let ?gs = "properties (h ! a)"
  let ?h' = "(h @ [ob])[a := with_properties (h ! a) (AList.update k (HRef ?n) ?gs)]"
  from assms(1) have a: "a < ?n" and F: "F \<subseteq> {..<?n}" "a \<notin> F"
    and r: "rep_fields h F ?gs fs"
    by (simp_all add: cell_rep_def)
  have run: "assign_new (HRef a) k ob h = (None, ?h')"
    using a by (simp add: assign_new_def nth_append)
  have len: "length ?h' = Suc ?n" by simp
  have other: "\<forall>b < ?n. b \<noteq> a \<longrightarrow> ?h' ! b = h ! b" by (simp add: nth_append)
  have cell: "?h' ! a = with_properties (h ! a) (AList.update k (HRef ?n) ?gs)"
    using a by simp
  have new: "?h' ! ?n = ob" using a by simp
  have rnew: "rep ?h' {?n} (HRef ?n) d"
    using assms(2)
  proof
    assume "ob = HArray [] [] \<and> d = JArr [] []"
    with new show ?thesis
      by (auto intro!: rep_arr [where ?A1.0 = "{}" and ?A2.0 = "{}"] rep_nil rep_fnil)
  next
    assume "ob = HObject [] \<and> d = JObj []"
    with new show ?thesis by (auto intro!: rep_obj rep_fnil)
  qed
  have "rep_fields ?h' F ?gs fs"
  proof (rule rep_fields_frame [OF r], intro ballI)
    fix b assume "b \<in> F"
    with F have "b < ?n" "b \<noteq> a" by auto
    with other show "b < length ?h' \<and> ?h' ! b = h ! b" by simp
  qed
  from rep_fields_update [OF this rnew] F
  have "rep_fields ?h' (F \<union> {?n}) (AList.update k (HRef ?n) ?gs) (AList.update k d fs)"
    by auto
  moreover have "{?n..<length ?h'} = {?n}" by auto
  moreover have "a < length ?h'" using a by simp
  moreover have "F \<union> {?n} \<subseteq> {..<length ?h'}" using F by auto
  moreover have "a \<notin> F \<union> {?n}" using a F by auto
  moreover have "properties (?h' ! a) = AList.update k (HRef ?n) ?gs"
    unfolding cell by (rule properties_with_properties)
  ultimately have "cell_rep ?h' a (F \<union> {?n..<length ?h'}) (AList.update k d fs)"
    unfolding cell_rep_def by presburger
  moreover have "same_but a h ?h'"
    unfolding same_but_def using other cell by (auto simp del: nth_list_update_eq)
  ultimately show ?thesis using run by blast
qed

lemma replace_null_tool_calls_h_rep:
  assumes "cell_rep h a F fs"
  shows "\<exists>h'. replace_null_tool_calls_h (HRef a) h = (None, h') \<and> same_but a h h' \<and>
           cell_rep h' a (F \<union> {length h..<length h'}) (null_to ''tool_calls'' (JArr [] []) fs)"
proof -
  from assms have a: "a < length h" and r: "rep_fields h F (properties (h ! a)) fs"
    by (simp_all add: cell_rep_def)
  show ?thesis
  proof (cases "map_of fs ''tool_calls'' = Some JNull")
    case True
    with rep_fields_null_test [OF r] a
    have "replace_null_tool_calls_h (HRef a) h = assign_new (HRef a) ''tool_calls'' (HArray [] []) h"
      by (simp add: replace_null_tool_calls_h_def)
    with assign_new_rep [OF assms, of "HArray [] []" "JArr [] []" "''tool_calls''"] True
    show ?thesis by (simp add: null_to_def)
  next
    case False
    with rep_fields_null_test [OF r] a
    have "replace_null_tool_calls_h (HRef a) h = (None, h)"
      by (simp add: replace_null_tool_calls_h_def)
    with False assms show ?thesis by (simp add: null_to_def same_but_refl)
  qed
qed

lemma replace_null_function_call_h_rep:
  assumes "cell_rep h a F fs"
  shows "\<exists>h'. replace_null_function_call_h (HRef a) h = (None, h') \<and> same_but a h h' \<and>
           cell_rep h' a (F \<union> {length h..<length h'}) (null_to ''function_call'' (JObj []) fs)"
proof -
  from assms have a: "a < length h" and r: "rep_fields h F (properties (h ! a)) fs"
    by (simp_all add: cell_rep_def)
  show ?thesis
  proof (cases "map_of fs ''function_call'' = Some JNull")
    case True
    with rep_fields_null_test [OF r] a
    have "replace_null_function_call_h (HRef a) h =
        assign_new (HRef a) ''function_call'' (HObject []) h"
      by (simp add: replace_null_function_call_h_def)
    with assign_new_rep [OF assms, of "HObject []" "JObj []" "''function_call''"] True
    show ?thesis by (simp add: null_to_def)
  next
    case False
    with rep_fields_null_test [OF r] a
    have "replace_null_function_call_h (HRef a) h = (None, h)"
      by (simp add: replace_null_function_call_h_def)
    with False assms show ?thesis by (simp add: null_to_def same_but_refl)
  qed
qed

lemma ensure_annotations_h_rep:
  assumes "cell_rep h a F fs"
  shows "\<exists>h'. ensure_annotations_h (HRef a) h = (None, h') \<and> same_but a h h' \<and>
           cell_rep h' a (F \<union> {length h..<length h'}) (missing_to ''annotations'' (JArr [] []) fs)"
proof -
  from assms have a: "a < length h" and r: "rep_fields h F (properties (h ! a)) fs"
    by (simp_all add: cell_rep_def)
  let ?p = "map_of (properties (h ! a)) ''annotations''"
  let ?q = "map_of fs ''annotations''"
  have test: "(?p = Some HNull \<or> ?p = None) \<longleftrightarrow> (?q = Some JNull \<or> ?q = None)"
    using rep_fields_null_test [OF r] rep_fields_lookup_None [OF r] by simp
  show ?thesis
  proof (cases "?q = Some JNull \<or> ?q = None")
    case True
    with test a
    have "ensure_annotations_h (HRef a) h = assign_new (HRef a) ''annotations'' (HArray [] []) h"
      by (simp add: ensure_annotations_h_def)
    with assign_new_rep [OF assms, of "HArray [] []" "JArr [] []" "''annotations''"] True
    show ?thesis by (simp add: missing_to_def)
  next
    case False
    with test a have "ensure_annotations_h (HRef a) h = (None, h)"
      by (auto simp: ensure_annotations_h_def)
    with False assms show ?thesis by (auto simp: missing_to_def same_but_refl)
  qed
qed

lemma format_message_h_cell:
  assumes "cell_rep h a F fs"
  shows "\<exists>h'. format_message_h (HRef a) h = (None, h') \<and> same_but a h h' \<and>
           cell_rep h' a (F \<union> {length h..<length h'}) (coerce fs)"
proof -
  from assms have a: "a < length h" by (simp add: cell_rep_def)
  from replace_null_tool_calls_h_rep [OF assms] obtain h1
    where s1: "replace_null_tool_calls_h (HRef a) h = (None, h1)" and b1: "same_but a h h1"
      and c1: "cell_rep h1 a (F \<union> {length h..<length h1})
                 (null_to ''tool_calls'' (JArr [] []) fs)"
    by blast
  from replace_null_function_call_h_rep [OF c1] obtain h2
    where s2: "replace_null_function_call_h (HRef a) h1 = (None, h2)" and b2: "same_but a h1 h2"
      and c2: "cell_rep h2 a (F \<union> {length h..<length h1} \<union> {length h1..<length h2})
                 (null_to ''function_call'' (JObj []) (null_to ''tool_calls'' (JArr [] []) fs))"
    by blast
  from ensure_annotations_h_rep [OF c2] obtain h3
    where s3: "ensure_annotations_h (HRef a) h2 = (None, h3)" and b3: "same_but a h2 h3"
      and c3: "cell_rep h3 a
                 (F \<union> {length h..<length h1} \<union> {length h1..<length h2} \<union> {length h2..<length h3})
                 (coerce fs)"
    unfolding coerce_def by blast
  have l: "length h \<le> length h1" "length h1 \<le> length h2" "length h2 \<le> length h3"
    using b1 b2 b3 by (simp_all add: same_but_def)
  have a1: "a < length h1" using a l by simp
  have b: "same_but a h h3"
    using same_but_trans [OF a b1 same_but_trans [OF a1 b2 b3]] .
  have "F \<union> {length h..<length h1} \<union> {length h1..<length h2} \<union> {length h2..<length h3} =
        F \<union> {length h..<length h3}"
    using l by auto
  with c3 have "cell_rep h3 a (F \<union> {length h..<length h3}) (coerce fs)" by simp
  moreover have "format_message_h (HRef a) h = (None, h3)"
    using s1 s2 s3 by (simp add: format_message_h_def)
  ultimately show ?thesis using b by blast
qed


lemma format_message_h_primitive:
  "format_message_h HNull h = (Some TypeError, h)"
  "format_message_h (HBool b) h = (Some TypeError, h @ [HArray [] []])"
  "format_message_h (HNum n) h = (Some TypeError, h @ [HArray [] []])"
  "format_message_h (HStr s) h = (Some TypeError, h @ [HArray [] []])"
  by (simp_all add: format_message_h_def replace_null_tool_calls_h_def
      replace_null_function_call_h_def ensure_annotations_h_def assign_new_def)

lemma format_message_h_rep:
  assumes "rep h A u m" and "A \<subseteq> {..<length h}"
  shows "\<exists>r h'. format_message_h u h = (r, h') \<and> length h \<le> length h' \<and>
           (\<forall>b < length h. b \<notin> A \<longrightarrow> h' ! b = h ! b) \<and>
           (case format_message m of
              Inl e \<Rightarrow> r = Some e
            | Inr m' \<Rightarrow> r = None \<and> rep h' (A \<union> {length h..<length h'}) u m')"
using assms(1)
proof (cases rule: rep_cases)
  case (obj a gs fs)
  from obj assms(2) have "cell_rep h a (A - {a}) fs"
    by (auto simp: cell_rep_def)
  from format_message_h_cell [OF this] obtain h'
    where run: "format_message_h (HRef a) h = (None, h')" and sb: "same_but a h h'"
      and c: "cell_rep h' a (A - {a} \<union> {length h..<length h'}) (coerce fs)"
    by blast
  from sb obj have cell: "h' ! a = HObject (properties (h' ! a))"
    by (auto simp: same_but_def)
  from sb have len: "length h \<le> length h'" by (simp add: same_but_def)
  have "A - {a} \<union> {length h..<length h'} \<subseteq> A \<union> {length h..<length h'} - {a}"
    using obj(4) by auto
  with c have "rep_fields h' (A \<union> {length h..<length h'} - {a}) (properties (h' ! a)) (coerce fs)"
    unfolding cell_rep_def by (blast intro: rep_fields_mono)
  moreover have "a \<in> A \<union> {length h..<length h'}" using obj(3) by simp
  moreover have "a < length h'" using obj(4) len by simp
  ultimately have "rep h' (A \<union> {length h..<length h'}) (HRef a) (JObj (coerce fs))"
    using cell by (intro rep_objI [where gs = "properties (h' ! a)"])
  moreover from sb obj(3) have "\<forall>b < length h. b \<notin> A \<longrightarrow> h' ! b = h ! b"
    unfolding same_but_def by blast
  ultimately show ?thesis
    using run len obj(1,2) by (simp add: format_message_JObj)
next
  case (arr a vs qs A1 xs A2 ps)
  from arr assms(2) have "cell_rep h a A2 ps"
    by (auto simp: cell_rep_def)
  from format_message_h_cell [OF this] obtain h'
    where run: "format_message_h (HRef a) h = (None, h')" and sb: "same_but a h h'"
      and c: "cell_rep h' a (A2 \<union> {length h..<length h'}) (coerce ps)"
    by blast
  from sb arr have cell: "h' ! a = HArray vs (properties (h' ! a))"
    by (auto simp: same_but_def)
  from sb have len: "length h \<le> length h'" by (simp add: same_but_def)
  have other: "\<forall>b < length h. b \<noteq> a \<longrightarrow> h' ! b = h ! b"
    using sb by (simp add: same_but_def)
  have el: "rep_list h' A1 vs xs"
  proof (rule rep_list_frame [OF arr(6)], intro ballI)
    fix b assume "b \<in> A1"
    with arr(9) assms(2) have "b < length h" "b \<noteq> a" by auto
    with other len show "b < length h' \<and> h' ! b = h ! b" by simp
  qed
  have pr: "rep_fields h' (A2 \<union> {length h..<length h'}) (properties (h' ! a)) (coerce ps)"
    using c by (simp add: cell_rep_def)
  have "rep h' (A \<union> {length h..<length h'}) (HRef a) (JArr xs (coerce ps))"
  proof (rule rep_arrI [OF _ _ cell el pr])
    show "a \<in> A \<union> {length h..<length h'}" using arr(3) by simp
    show "a < length h'" using arr(4) len by simp
    show "A1 \<inter> (A2 \<union> {length h..<length h'}) = {}"
      using arr(8,9) assms(2) by auto
    show "A1 \<union> (A2 \<union> {length h..<length h'}) \<subseteq> A \<union> {length h..<length h'} - {a}"
      using arr(4,9) by auto
  qed
  moreover from other arr(3) have "\<forall>b < length h. b \<notin> A \<longrightarrow> h' ! b = h ! b" by blast
  ultimately show ?thesis
    using run len arr(1,2) by (simp add: format_message_JArr)
qed (simp_all add: format_message_h_primitive format_message_primitive nth_append)

lemma format_choice_h_falsy:
  assumes "get_prop_h h w ''message'' = Inr p" and "\<not> truthy_opt_h p"
    and "get_prop x ''message'' = Inr q" and "\<not> truthy_opt q" and "rep h A w x"
  shows "\<exists>r h'. format_choice_h s ix i w h = (r, h') \<and> length h \<le> length h' \<and>
           (\<forall>b < length h. b \<notin> A \<longrightarrow> h' ! b = h ! b) \<and>
           (case format_choice s ix i x of
              Inl e \<Rightarrow> r = Some e
            | Inr x' \<Rightarrow> r = None \<and> rep h' (A \<union> {length h..<length h'}) w x')"
  using assms by (cases s) (simp_all add: format_choice_h_def format_choice_def)

lemma format_choice_h_rep:
  assumes "rep h A w x" and "A \<subseteq> {..<length h}" and "is_json x"
  shows "\<exists>r h'. format_choice_h s ix i w h = (r, h') \<and> length h \<le> length h' \<and>
           (\<forall>b < length h. b \<notin> A \<longrightarrow> h' ! b = h ! b) \<and>
           (case format_choice s ix i x of
              Inl e \<Rightarrow> r = Some e
            | Inr x' \<Rightarrow> r = None \<and> rep h' (A \<union> {length h..<length h'}) w x')"
using assms(1)
proof (cases rule: rep_cases)
  case null
  then show ?thesis by (simp add: format_choice_h_def format_choice_def)
next
  case (bool b)
  with assms(1) show ?thesis by (intro format_choice_h_falsy [where p = None and q = None]) simp_all
next
  case (num n)
  with assms(1) show ?thesis by (intro format_choice_h_falsy [where p = None and q = None]) simp_all
next
  case (str s)
  with assms(1) show ?thesis by (intro format_choice_h_falsy [where p = None and q = None]) simp_all
next
  case (arr a vs qs A1 xs A2 ps)
  from assms(3) arr(2) have ps: "ps = []" by simp
  with arr(7) have "qs = []" by (auto elim: rep_fields.cases)
  with arr(1,2,4,5) ps assms(1) show ?thesis
    by (intro format_choice_h_falsy [where p = None and q = None]) simp_all
next
  case (obj a gs fs)
  show ?thesis
  proof (cases "map_of fs ''message''")
    case None
    with rep_fields_lookup_None [OF obj(6), of "''message''"]
    have "map_of gs ''message'' = None" by simp
    with obj(1,2,4,5) None assms(1) show ?thesis
      by (intro format_choice_h_falsy [where p = None and q = None]) simp_all
  next
    case (Some m)
    from rep_fields_context [OF obj(6) Some] obtain v Av
      where v: "map_of gs ''message'' = Some v" and Av: "Av \<subseteq> A - {a}" and rv: "rep h Av v m"
        and ctx: "\<forall>h' B x'. (\<forall>b \<in> A - {a} - Av. b < length h' \<and> h' ! b = h ! b) \<longrightarrow>
            B \<inter> (A - {a} - Av) = {} \<longrightarrow> rep h' B v x' \<longrightarrow>
            rep_fields h' (A - {a} \<union> B) gs (AList.update ''message'' x' fs)"
      by blast
    have gp: "get_prop_h h w ''message'' = Inr (Some v)" using obj(1,4,5) v by simp
    have gq: "get_prop x ''message'' = Inr (Some m)" using obj(2) Some by simp
    show ?thesis
    proof (cases "truthy m")
      case False
      with rep_truthy [OF rv] gp gq assms(1) show ?thesis
        by (intro format_choice_h_falsy [where p = "Some v" and q = "Some m"]) simp_all
    next
      case True
      with rep_truthy [OF rv] have tv: "truthy_h v" by simp
      have AvL: "Av \<subseteq> {..<length h}" using Av assms(2) by auto
      from format_message_h_rep [OF rv AvL] obtain r h'
        where run: "format_message_h v h = (r, h')" and len: "length h \<le> length h'"
          and fr: "\<forall>b < length h. b \<notin> Av \<longrightarrow> h' ! b = h ! b"
          and res: "case format_message m of
                      Inl e \<Rightarrow> r = Some e
                    | Inr m' \<Rightarrow> r = None \<and> rep h' (Av \<union> {length h..<length h'}) v m'"
        by blast
      have run': "format_choice_h s ix i w h = (r, h')"
        using gp tv run by (simp add: format_choice_h_def)
      have fr': "\<forall>b < length h. b \<notin> A \<longrightarrow> h' ! b = h ! b" using fr Av by blast
      have fc: "format_choice s ix i x =
          (case format_message m of Inl e \<Rightarrow> Inl e | Inr m' \<Rightarrow> Inr (with_prop x ''message'' m'))"
        using gq True by (simp add: format_choice_def)
      show ?thesis
      proof (cases "format_message m")
        case (Inl e)
        with res run' len fr' fc show ?thesis by simp
      next
        case (Inr m')
        with res have r: "r = None" and rm: "rep h' (Av \<union> {length h..<length h'}) v m'"
          by simp_all
        have "rep_fields h' (A - {a} \<union> (Av \<union> {length h..<length h'})) gs
                (AList.update ''message'' m' fs)"
        proof -
          have "\<forall>b \<in> A - {a} - Av. b < length h' \<and> h' ! b = h ! b"
          proof
            fix b assume "b \<in> A - {a} - Av"
            with assms(2) have "b < length h" "b \<notin> Av" by auto
            with fr len show "b < length h' \<and> h' ! b = h ! b" by simp
          qed
          moreover have "(Av \<union> {length h..<length h'}) \<inter> (A - {a} - Av) = {}"
            using assms(2) by auto
          ultimately show ?thesis using ctx rm by blast
        qed
        moreover have "A - {a} \<union> (Av \<union> {length h..<length h'}) \<subseteq>
            A \<union> {length h..<length h'} - {a}"
          using Av obj(4) by auto
        ultimately have "rep_fields h' (A \<union> {length h..<length h'} - {a}) gs
                     (AList.update ''message'' m' fs)"
          by (rule rep_fields_mono)
        moreover have "h' ! a = HObject gs" using fr obj(4,5) Av by auto
        moreover have "a \<in> A \<union> {length h..<length h'}" using obj(3) by simp
        moreover have "a < length h'" using obj(4) len by simp
        ultimately have "rep h' (A \<union> {length h..<length h'}) (HRef a)
            (JObj (AList.update ''message'' m' fs))"
          by (intro rep_objI)
        with run' r len fr' fc Inr obj(1,2) show ?thesis by simp
      qed
    qed
  qed
qed

lemma format_choices_h_rep:
  "rep_list h A vs cs \<Longrightarrow> A \<subseteq> {..<length h} \<Longrightarrow> list_all is_json cs \<Longrightarrow>
   \<exists>r h'. format_choices_h s ix i vs h = (r, h') \<and> length h \<le> length h' \<and>
     (\<forall>b < length h. b \<notin> A \<longrightarrow> h' ! b = h ! b) \<and>
     (case format_choices s ix i cs of
        Inl e \<Rightarrow> r = Some e
      | Inr cs' \<Rightarrow> r = None \<and> rep_list h' (A \<union> {length h..<length h'}) vs cs')"
proof (induction vs arbitrary: cs A h i)
  case Nil
  then have "cs = []" by (auto elim: rep_list.cases)
  then show ?case by (simp add: rep_nil)
next
  case (Cons v vs)
  from Cons.prems(1) obtain x xs A1 A2 where cs: "cs = x # xs" and r1: "rep h A1 v x"
    and r2: "rep_list h A2 vs xs" and d: "A1 \<inter> A2 = {}" "A1 \<union> A2 \<subseteq> A"
    by (auto elim: rep_list.cases)
  from Cons.prems(3) cs have jx: "is_json x" and jxs: "list_all is_json xs" by simp_all
  have A1L: "A1 \<subseteq> {..<length h}" using d Cons.prems(2) by auto
  from format_choice_h_rep [OF r1 A1L jx, of s ix i] obtain q h1
    where run1: "format_choice_h s ix i v h = (q, h1)" and len1: "length h \<le> length h1"
      and fr1: "\<forall>b < length h. b \<notin> A1 \<longrightarrow> h1 ! b = h ! b"
      and res1: "case format_choice s ix i x of
                   Inl e \<Rightarrow> q = Some e
                 | Inr x' \<Rightarrow> q = None \<and> rep h1 (A1 \<union> {length h..<length h1}) v x'"
    by blast
  show ?case
  proof (cases "format_choice s ix i x")
    case (Inl e)
    with res1 run1 len1 fr1 d show ?thesis by (auto simp: cs)
  next
    case (Inr x')
    with res1 have q: "q = None" and rx: "rep h1 (A1 \<union> {length h..<length h1}) v x'"
      by simp_all
    have r2': "rep_list h1 A2 vs xs"
    proof (rule rep_list_frame [OF r2], intro ballI)
      fix b assume "b \<in> A2"
      with d Cons.prems(2) have "b < length h" "b \<notin> A1" by auto
      with fr1 len1 show "b < length h1 \<and> h1 ! b = h ! b" by simp
    qed
    have A2L: "A2 \<subseteq> {..<length h1}" using d Cons.prems(2) len1 by auto
    from Cons.IH [OF r2' A2L jxs, of "Suc i"] obtain r h'
      where run2: "format_choices_h s ix (Suc i) vs h1 = (r, h')" and len2: "length h1 \<le> length h'"
        and fr2: "\<forall>b < length h1. b \<notin> A2 \<longrightarrow> h' ! b = h1 ! b"
        and res2: "case format_choices s ix (Suc i) xs of
                     Inl e \<Rightarrow> r = Some e
                   | Inr xs' \<Rightarrow> r = None \<and> rep_list h' (A2 \<union> {length h1..<length h'}) vs xs'"
      by blast
    have run: "format_choices_h s ix i (v # vs) h = (r, h')"
      using run1 q run2 by simp
    have len: "length h \<le> length h'" using len1 len2 by simp
    have fr: "\<forall>b < length h. b \<notin> A \<longrightarrow> h' ! b = h ! b"
    proof (intro allI impI)
      fix b assume b: "b < length h" "b \<notin> A"
      with d have "b \<notin> A1" "b \<notin> A2" "b < length h1" using len1 by auto
      with fr1 fr2 b show "h' ! b = h ! b" by simp
    qed
    show ?thesis
    proof (cases "format_choices s ix (Suc i) xs")
      case (Inl e)
      with res2 run len fr Inr show ?thesis by (simp add: cs)
    next
      case xs': (Inr xs')
      with res2 have r: "r = None"
        and rxs: "rep_list h' (A2 \<union> {length h1..<length h'}) vs xs'" by simp_all
      have rx': "rep h' (A1 \<union> {length h..<length h1}) v x'"
      proof (rule rep_frame [OF rx], intro ballI)
        fix b assume "b \<in> A1 \<union> {length h..<length h1}"
        with d Cons.prems(2) have "b < length h1" "b \<notin> A2" using len1 by auto
        with fr2 len2 show "b < length h' \<and> h' ! b = h1 ! b" by simp
      qed
      have "rep_list h' (A \<union> {length h..<length h'}) (v # vs) (x' # xs')"
        using rx' rxs
      proof (rule rep_cons)
        show "(A1 \<union> {length h..<length h1}) \<inter> (A2 \<union> {length h1..<length h'}) = {}"
          using d Cons.prems(2) len1 by auto
        show "A1 \<union> {length h..<length h1} \<union> (A2 \<union> {length h1..<length h'}) \<subseteq>
            A \<union> {length h..<length h'}"
          using d len1 len2 by auto
      qed
      with run r len fr Inr xs' show ?thesis by (simp add: cs)
    qed
  qed
qed


lemma choices_loop_rep:
  assumes "rep h A c t" and "A \<subseteq> {..<length h}" and "is_json t"
    and "get_prop t ''choices'' = Inr (Some x)" and "truthy x" and "isArray x"
  shows "\<exists>p r h'. get_prop_h h c ''choices'' = Inr (Some p) \<and> truthy_h p \<and> isArray_h h p \<and>
           format_choices_h s ix 0 (elements_h h p) h = (r, h') \<and>
           (case format_choices s ix 0 (elements x) of
              Inl e \<Rightarrow> r = Some e
            | Inr cs \<Rightarrow> r = None \<and>
                rep h' (A \<union> {length h..<length h'}) c
                  (with_prop t ''choices'' (with_elements x cs)))"
  using assms(1)
proof (cases rule: rep_cases)
  case (obj a gs fs)
  from assms(4) obj(2) have look: "map_of fs ''choices'' = Some x" by simp
  from assms(3) obj(2) look have jx: "is_json x"
    by (auto simp: list_all_iff dest: map_of_SomeD)
  from rep_fields_context [OF obj(6) look] obtain p Ap
    where p: "map_of gs ''choices'' = Some p" and Ap: "Ap \<subseteq> A - {a}" and rp: "rep h Ap p x"
      and ctx: "\<forall>h' B x'. (\<forall>b \<in> A - {a} - Ap. b < length h' \<and> h' ! b = h ! b) \<longrightarrow>
          B \<inter> (A - {a} - Ap) = {} \<longrightarrow> rep h' B p x' \<longrightarrow>
          rep_fields h' (A - {a} \<union> B) gs (AList.update ''choices'' x' fs)"
    by blast
  have gp: "get_prop_h h c ''choices'' = Inr (Some p)" using obj(1,4,5) p by simp
  have tp: "truthy_h p" using rep_truthy [OF rp] assms(5) by simp
  have ap: "isArray_h h p" using rep_isArray [OF rp] assms(6) by simp
  from rp show ?thesis
  proof (cases rule: rep_cases)
    case (arr b vs qs A1 xs A2 ps)
    from jx arr(2) have jxs: "list_all is_json xs" by simp
    have A1L: "A1 \<subseteq> {..<length h}" using arr(9) Ap assms(2) by auto
    have A2L: "A2 \<subseteq> {..<length h}" using arr(9) Ap assms(2) by auto
    from format_choices_h_rep [OF arr(6) A1L jxs, of s ix 0] obtain r h'
      where run: "format_choices_h s ix 0 vs h = (r, h')" and len: "length h \<le> length h'"
        and fr: "\<forall>d < length h. d \<notin> A1 \<longrightarrow> h' ! d = h ! d"
        and res: "case format_choices s ix 0 xs of
                    Inl e \<Rightarrow> r = Some e
                  | Inr cs \<Rightarrow> r = None \<and> rep_list h' (A1 \<union> {length h..<length h'}) vs cs"
      by blast
    have el: "elements_h h p = vs" using arr(1,4,5) by simp
    show ?thesis
    proof (cases "format_choices s ix 0 xs")
      case (Inl e)
      with res gp tp ap run el arr(2) show ?thesis by simp
    next
      case (Inr cs)
      with res have r: "r = None" and rl: "rep_list h' (A1 \<union> {length h..<length h'}) vs cs"
        by simp_all
      have cellb: "h' ! b = HArray vs qs" using fr arr(4,5,9) by auto
      have pr: "rep_fields h' A2 qs ps"
      proof (rule rep_fields_frame [OF arr(7)], intro ballI)
        fix d assume "d \<in> A2"
        with arr(8,9) Ap assms(2) have "d < length h" "d \<notin> A1" by auto
        with fr len show "d < length h' \<and> h' ! d = h ! d" by simp
      qed
      have rp': "rep h' (Ap \<union> {length h..<length h'}) p (JArr cs ps)"
        unfolding arr(1)
      proof (rule rep_arrI [OF _ _ cellb rl pr])
        show "b \<in> Ap \<union> {length h..<length h'}" using arr(3) by simp
        show "b < length h'" using arr(4) len by simp
        show "(A1 \<union> {length h..<length h'}) \<inter> A2 = {}"
          using arr(8) A2L by auto
        show "A1 \<union> {length h..<length h'} \<union> A2 \<subseteq> Ap \<union> {length h..<length h'} - {b}"
          using arr(4,9) by auto
      qed
      have "rep_fields h' (A - {a} \<union> (Ap \<union> {length h..<length h'})) gs
              (AList.update ''choices'' (JArr cs ps) fs)"
      proof -
        have "\<forall>d \<in> A - {a} - Ap. d < length h' \<and> h' ! d = h ! d"
        proof
          fix d assume "d \<in> A - {a} - Ap"
          with assms(2) arr(9) have "d < length h" "d \<notin> A1" by auto
          with fr len show "d < length h' \<and> h' ! d = h ! d" by simp
        qed
        moreover have "(Ap \<union> {length h..<length h'}) \<inter> (A - {a} - Ap) = {}"
          using assms(2) by auto
        ultimately show ?thesis using ctx rp' by blast
      qed
      moreover have "A - {a} \<union> (Ap \<union> {length h..<length h'}) \<subseteq>
          A \<union> {length h..<length h'} - {a}"
        using Ap obj(4) by auto
      ultimately have "rep_fields h' (A \<union> {length h..<length h'} - {a}) gs
          (AList.update ''choices'' (JArr cs ps) fs)"
        by (rule rep_fields_mono)
      moreover have "h' ! a = HObject gs"
      proof -
        have "a \<notin> A1" using Ap arr(9) by blast
        with fr obj(4,5) show ?thesis by simp
      qed
      moreover have "a \<in> A \<union> {length h..<length h'}" using obj(3) by simp
      moreover have "a < length h'" using obj(4) len by simp
      ultimately have "rep h' (A \<union> {length h..<length h'}) (HRef a)
          (JObj (AList.update ''choices'' (JArr cs ps) fs))"
        by (intro rep_objI)
      with gp tp ap run el r Inr obj(1,2) arr(2) show ?thesis by simp
    qed
  qed (use assms(6) in simp_all)
next
  case (arr a vs qs A1 xs A2 ps)
  with assms(3,4) show ?thesis by simp
qed (use assms(4) in simp_all)

lemma no_choices_rep:
  assumes "rep h A c t" and "is_json t" and "get_prop t ''choices'' = Inr q"
    and "\<not> (truthy_opt q \<and> isArray (the q))"
  shows "\<exists>p. get_prop_h h c ''choices'' = Inr p \<and> \<not> (truthy_opt_h p \<and> isArray_h h (the p))"
  using assms(1)
proof (cases rule: rep_cases)
  case (obj a gs fs)
  show ?thesis
  proof (cases "map_of fs ''choices''")
    case None
    with rep_fields_lookup_None [OF obj(6), of "''choices''"] obj(1,4,5) show ?thesis by simp
  next
    case (Some x)
    from rep_fields_context [OF obj(6) Some] obtain p Ap
      where p: "map_of gs ''choices'' = Some p" and rp: "rep h Ap p x"
      by blast
    from assms(3,4) obj(2) Some have "\<not> (truthy x \<and> isArray x)" by auto
    with rep_truthy [OF rp] rep_isArray [OF rp] p obj(1,4,5) show ?thesis by simp
  qed
next
  case (arr a vs qs A1 xs A2 ps)
  from assms(2) arr(2) have "ps = []" by simp
  with arr(7) have "qs = []" by (auto elim: rep_fields.cases)
  with arr(1,4,5) show ?thesis by simp
next
  case null
  with assms(3) show ?thesis by simp
qed simp_all

lemma null_document_rep:
  assumes "rep h A c t" and "get_prop t ''choices'' = Inl e"
  shows "get_prop_h h c ''choices'' = Inl e"
  using assms(1)
proof (cases rule: rep_cases)
  case null
  with assms(2) show ?thesis by simp
qed (use assms(2) in simp_all)

text \<open>
  The two embeddings agree: when the document at \<open>data\<close> serialises to the JSON value \<open>t\<close>,
  the run on the store raises what \<open>formatLiteLLMResponse t\<close> raises, or returns a reference
  that serialises to what \<open>formatLiteLLMResponse t\<close> returns.
\<close>

theorem store_run_refines:
  assumes "stringify h [] data = Inr t"
  shows "\<exists>res h'. formatLiteLLMResponse_h data strictMode itemIndex h = (res, h') \<and>
           (case formatLiteLLMResponse t strictMode itemIndex of
              Inl e \<Rightarrow> res = Inl e
            | Inr r \<Rightarrow> (\<exists>v. res = Inr v \<and> stringify h' [] v = Inr (deep_clone r)))"
proof -
  from assms have jt: "is_json t" by (rule stringify_is_json)
  then have clone: "deep_clone t = t" by (rule deep_clone_json)
  obtain c h1 where b: "build t h = (c, h1)" by (cases "build t h")
  from build_rep [OF b] have rc: "rep h1 {length h..<length h1} c t" .
  have AL: "{length h..<length h1} \<subseteq> {..<length h1}" by auto
  show ?thesis
  proof (cases "get_prop t ''choices''")
    case (Inl e)
    with null_document_rep [OF rc Inl] assms b clone show ?thesis
      by (simp add: formatLiteLLMResponse_h_def formatLiteLLMResponse_def)
  next
    case (Inr q)
    show ?thesis
    proof (cases "truthy_opt q \<and> isArray (the q)")
      case False
      from no_choices_rep [OF rc jt Inr False] obtain p
        where gp: "get_prop_h h1 c ''choices'' = Inr p"
          and np: "\<not> (truthy_opt_h p \<and> isArray_h h1 (the p))"
        by blast
      from rep_read [OF rc, of "[]"] clone have rd: "stringify h1 [] c = Inr (deep_clone t)"
        by simp
      from False Inr gp np assms b clone rd show ?thesis
        by (cases strictMode) (auto simp: formatLiteLLMResponse_h_def formatLiteLLMResponse_def)
    next
      case True
      then obtain x where q: "q = Some x" and tx: "truthy x" and ax: "isArray x"
        by (cases q) simp_all
      from Inr q have gq: "get_prop t ''choices'' = Inr (Some x)" by simp
      from choices_loop_rep [OF rc AL jt gq tx ax, of strictMode itemIndex] obtain p r h'
        where gp: "get_prop_h h1 c ''choices'' = Inr (Some p)" and tp: "truthy_h p"
          and ap: "isArray_h h1 p"
          and run: "format_choices_h strictMode itemIndex 0 (elements_h h1 p) h1 = (r, h')"
          and res: "case format_choices strictMode itemIndex 0 (elements x) of
                      Inl e \<Rightarrow> r = Some e
                    | Inr cs \<Rightarrow> r = None \<and>
                        rep h' ({length h..<length h1} \<union> {length h1..<length h'}) c
                          (with_prop t ''choices'' (with_elements x cs))"
        by blast
      have hrun: "formatLiteLLMResponse_h data strictMode itemIndex h =
          (case r of Some e \<Rightarrow> (Inl e, h') | None \<Rightarrow> (Inr c, h'))"
        using assms b gp tp ap run by (simp add: formatLiteLLMResponse_h_def)
      have vrun: "formatLiteLLMResponse t strictMode itemIndex =
          (case format_choices strictMode itemIndex 0 (elements x) of
             Inl e \<Rightarrow> Inl e
           | Inr cs \<Rightarrow> Inr (with_prop t ''choices'' (with_elements x cs)))"
        using clone gq tx ax by (simp add: formatLiteLLMResponse_def split: sum.splits)
      show ?thesis
      proof (cases "format_choices strictMode itemIndex 0 (elements x)")
        case (Inl e)
        with res hrun vrun show ?thesis by simp
      next
        case (Inr cs)
        with res have r: "r = None"
          and rr: "rep h' ({length h..<length h1} \<union> {length h1..<length h'}) c
                     (with_prop t ''choices'' (with_elements x cs))"
          by simp_all
        from rep_read [OF rr, of "[]"]
        have "stringify h' [] c = Inr (deep_clone (with_prop t ''choices'' (with_elements x cs)))"
          by simp
        with r hrun vrun Inr show ?thesis by simp
      qed
    qed
  qed
qed

section \<open>The claims\<close>

lemmas format_defs = formatLiteLLMResponse_def format_choice_def format_message_def
  replace_null_tool_calls_def replace_null_function_call_def ensure_annotations_def

lemmas execute_defs = execute_def process_item_def format_item_def

lemma scenario_text_nonempty: "scenario_text \<noteq> []"
  by (simp add: scenario_text_def)

text \<open>
  C1, as amended. In the end-to-end scenario (one record whose \<^verbatim>\<open>data\<close> field is the JSON
  text, \<^verbatim>\<open>inputField\<close> and \<^verbatim>\<open>outputField\<close> both \<^verbatim>\<open>data\<close>, \<^verbatim>\<open>processAllItems\<close> true,
  \<^verbatim>\<open>strictMode\<close> false) \<^verbatim>\<open>execute\<close> returns exactly one record, whose \<^verbatim>\<open>data\<close> field is the
  parsed document with the message \<^verbatim>\<open>{tool_calls: [], annotations: []}\<close>: the key
  \<^verbatim>\<open>function_call\<close>, absent from the input, is absent from the output.
\<close>

theorem scenario_output_has_two_fields:
  assumes "parse scenario_text = Some scenario_doc"
  shows "execute parse ''data'' ''data'' True False [scenario_item] = Inr [[scenario_output]]"
  using assms scenario_text_nonempty
  by (simp add: execute_defs format_defs scenario_item_def scenario_doc_def scenario_output_def
      scenario_result_def scenario_message_def)

theorem scenario_output_has_two_fields_witness:
  "scenario_parse scenario_text = Some scenario_doc \<and>
   execute scenario_parse ''data'' ''data'' True False [scenario_item] = Inr [[scenario_output]]"
  using scenario_output_has_two_fields [of scenario_parse] by (simp add: scenario_parse_def)

text \<open>C1 as stated asks for \<^verbatim>\<open>function_call: {}\<close> in the output message. The message of the
  one output record has no such property.\<close>

theorem scenario_function_call_absent:
  "execute scenario_parse ''data'' ''data'' True False [scenario_item] =
     Inr [[scenario_output]] \<and>
   map_of (json scenario_output) ''data'' = Some scenario_result \<and>
   message_at scenario_result 0 = Some scenario_message \<and>
   get_prop scenario_message ''function_call'' = Inr None"
  using scenario_text_nonempty
  by (simp add: execute_defs format_defs scenario_item_def scenario_doc_def scenario_output_def
      scenario_result_def scenario_message_def scenario_parse_def message_at_def)

text \<open>
  C2. Whenever \<^verbatim>\<open>formatLiteLLMResponse\<close> returns, every message of the copied document that
  is a mapping has, in the result, \<^verbatim>\<open>tool_calls\<close> replaced by the empty array exactly when
  it was present with the value \<^verbatim>\<open>null\<close>, and \<^verbatim>\<open>function_call\<close> replaced by the empty
  object exactly when it was present with the value \<^verbatim>\<open>null\<close>; any other value, and the
  absence of the key, stay as they were.
\<close>

theorem null_tool_calls_and_function_call_replaced:
  assumes "formatLiteLLMResponse data strictMode itemIndex = Inr r"
    and "message_at (deep_clone data) i = Some (JObj fs)"
  shows "\<exists>fs'. message_at r i = Some (JObj fs') \<and>
           map_of fs' ''tool_calls'' =
             (if map_of fs ''tool_calls'' = Some JNull then Some (JArr [] [])
              else map_of fs ''tool_calls'') \<and>
           map_of fs' ''function_call'' =
             (if map_of fs ''function_call'' = Some JNull then Some (JObj [])
              else map_of fs ''function_call'')"
  using message_at_result [OF assms]
  by (simp add: map_of_coerce_tool_calls map_of_coerce_function_call)

theorem null_tool_calls_and_function_call_replaced_witness:
  "formatLiteLLMResponse scenario_doc True 0 = Inr scenario_result \<and>
   message_at (deep_clone scenario_doc) 0 =
     Some (JObj [(''tool_calls'', JNull), (''annotations'', JNull)]) \<and>
   (\<exists>fs'. message_at scenario_result 0 = Some (JObj fs') \<and>
      map_of fs' ''tool_calls'' = Some (JArr [] []) \<and> map_of fs' ''function_call'' = None)"
proof -
  have r: "formatLiteLLMResponse scenario_doc True 0 = Inr scenario_result"
    by (simp add: format_defs scenario_doc_def scenario_result_def scenario_message_def)
  have m: "message_at (deep_clone scenario_doc) 0 =
      Some (JObj [(''tool_calls'', JNull), (''annotations'', JNull)])"
    by (simp add: message_at_def scenario_doc_def)
  from null_tool_calls_and_function_call_replaced [OF r m] r m show ?thesis by simp
qed

text \<open>
  C3. Whenever \<^verbatim>\<open>formatLiteLLMResponse\<close> returns, every message of the copied document that
  is a mapping has, in the result, \<^verbatim>\<open>annotations\<close> equal to the empty array when the key
  was absent or its value was \<^verbatim>\<open>null\<close> (the key is introduced when absent), and its old
  value otherwise.
\<close>

theorem annotations_absent_or_null_replaced:
  assumes "formatLiteLLMResponse data strictMode itemIndex = Inr r"
    and "message_at (deep_clone data) i = Some (JObj fs)"
  shows "\<exists>fs'. message_at r i = Some (JObj fs') \<and>
           map_of fs' ''annotations'' =
             (if map_of fs ''annotations'' = None \<or> map_of fs ''annotations'' = Some JNull
              then Some (JArr [] []) else map_of fs ''annotations'')"
  using message_at_result [OF assms]
  by (auto simp: map_of_coerce_annotations)

theorem annotations_absent_or_null_replaced_witness:
  "formatLiteLLMResponse (JObj [(''choices'', JArr [JObj [(''message'', JObj [])]] [])]) False 0 =
     Inr (JObj [(''choices'',
       JArr [JObj [(''message'', JObj [(''annotations'', JArr [] [])])]] [])]) \<and>
   message_at (deep_clone (JObj [(''choices'', JArr [JObj [(''message'', JObj [])]] [])])) 0 =
     Some (JObj []) \<and>
   (\<exists>fs'. message_at (JObj [(''choices'',
              JArr [JObj [(''message'', JObj [(''annotations'', JArr [] [])])]] [])]) 0 =
            Some (JObj fs') \<and>
          map_of fs' ''annotations'' = Some (JArr [] []))"
proof -
  let ?d = "JObj [(''choices'', JArr [JObj [(''message'', JObj [])]] [])]"
  let ?r = "JObj [(''choices'',
       JArr [JObj [(''message'', JObj [(''annotations'', JArr [] [])])]] [])]"
  have r: "formatLiteLLMResponse ?d False 0 = Inr ?r"
    by (simp add: format_defs)
  have m: "message_at (deep_clone ?d) 0 = Some (JObj [])"
    by (simp add: message_at_def)
  from annotations_absent_or_null_replaced [OF r m] r m show ?thesis by simp
qed

text \<open>
  C4, at the document \<^verbatim>\<open>null\<close> (the \<^verbatim>\<open>data\<close> field holding the JSON text \<^verbatim>\<open>null\<close>): reading
  \<^verbatim>\<open>clonedData.choices\<close> raises a \<^verbatim>\<open>TypeError\<close>, in strict and in non-strict mode. The
  lemmas \<open>format_without_choices_array\<close> and \<open>format_empty_object\<close> above give what the claim
  says for every other document.
\<close>

theorem null_document_raises_TypeError:
  "formatLiteLLMResponse JNull strictMode itemIndex = Inl TypeError"
  by (simp add: formatLiteLLMResponse_def)

text \<open>
  A choice without message, where the loop of lines 165 to 190 meets what line 168 expects.
  Let the copied document have a \<^verbatim>\<open>choices\<close> array, and let its element \<open>i\<close> be a value
  other than \<^verbatim>\<open>null\<close> whose \<^verbatim>\<open>message\<close> is absent or falsy. In strict mode, when every
  earlier element has a truthy message that is an object or an array, the call fails with
  the error of a choice without message at index \<open>i\<close>. In non-strict mode, when no element
  is \<^verbatim>\<open>null\<close> and every truthy message is an object or an array, the call returns: element
  \<open>i\<close> is unchanged and every element is what the body of the loop makes of it.
\<close>

theorem choice_without_truthy_message:
  assumes "get_prop (deep_clone data) ''choices'' = Inr (Some (JArr cs ps))"
    and "i < length cs" and "cs ! i \<noteq> JNull" and "\<not> has_message (cs ! i)"
  shows "(list_all well_shaped (take i cs) \<and> list_all has_message (take i cs) \<longrightarrow>
            formatLiteLLMResponse data True itemIndex =
              Inl (NodeOperationError (ChoiceWithoutMessage i) itemIndex)) \<and>
         (list_all well_shaped cs \<longrightarrow>
            (\<exists>cs'. formatLiteLLMResponse data False itemIndex =
                      Inr (with_prop (deep_clone data) ''choices'' (JArr cs' ps)) \<and>
                    length cs' = length cs \<and> cs' ! i = cs ! i \<and>
                    (\<forall>k<length cs. format_choice False itemIndex k (cs ! k) = Inr (cs' ! k))))"
proof (intro conjI impI)
  assume "list_all well_shaped (take i cs) \<and> list_all has_message (take i cs)"
  then have before: "\<forall>j<i. \<exists>c'. format_choice True itemIndex (0 + j) (cs ! j) = Inr c'"
    using assms(2) format_choice_well_shaped by (auto simp: list_all_length)
  have "format_choice True itemIndex (0 + i) (cs ! i) =
          Inl (NodeOperationError (ChoiceWithoutMessage i) itemIndex)"
    using format_choice_no_message(1) [OF assms(3,4)] by simp
  from format_choices_first_error [OF assms(2) this before]
  show "formatLiteLLMResponse data True itemIndex =
          Inl (NodeOperationError (ChoiceWithoutMessage i) itemIndex)"
    using assms(1) by (simp add: formatLiteLLMResponse_def)
next
  assume ws: "list_all well_shaped cs"
  then have "\<forall>k<length cs. \<exists>c'. format_choice False itemIndex (0 + k) (cs ! k) = Inr c'"
    using format_choice_well_shaped by (auto simp: list_all_length)
  from format_choices_all [OF this]
  obtain cs' where cs': "format_choices False itemIndex 0 cs = Inr cs'" by blast
  have nth: "\<forall>k<length cs. format_choice False itemIndex k (cs ! k) = Inr (cs' ! k)"
    using format_choices_nth [OF cs'] by simp
  with assms(2) format_choice_no_message(2) [OF assms(3,4)] have "cs' ! i = cs ! i"
    by (metis sum.inject(2))
  with cs' nth format_choices_length [OF cs'] assms(1)
  show "\<exists>cs'. formatLiteLLMResponse data False itemIndex =
                 Inr (with_prop (deep_clone data) ''choices'' (JArr cs' ps)) \<and>
               length cs' = length cs \<and> cs' ! i = cs ! i \<and>
               (\<forall>k<length cs. format_choice False itemIndex k (cs ! k) = Inr (cs' ! k))"
    by (auto simp: formatLiteLLMResponse_def)
qed

theorem choice_without_truthy_message_witness:
  "get_prop (deep_clone (JObj [(''choices'', JArr [JObj [(''message'', JObj [])], JObj []] [])]))
     ''choices'' = Inr (Some (JArr [JObj [(''message'', JObj [])], JObj []] [])) \<and>
   list_all well_shaped [JObj [(''message'', JObj [])], JObj []] \<and>
   list_all has_message (take 1 [JObj [(''message'', JObj [])], JObj []]) \<and>
   \<not> has_message ([JObj [(''message'', JObj [])], JObj []] ! 1) \<and>
   formatLiteLLMResponse (JObj [(''choices'', JArr [JObj [(''message'', JObj [])], JObj []] [])])
     True 7 = Inl (NodeOperationError (ChoiceWithoutMessage 1) 7) \<and>
   (\<exists>cs'. formatLiteLLMResponse
             (JObj [(''choices'', JArr [JObj [(''message'', JObj [])], JObj []] [])]) False 7 =
           Inr (JObj [(''choices'', JArr cs' [])]) \<and> cs' ! 1 = JObj [])"
proof -
  let ?cs = "[JObj [(''message'', JObj [])], JObj []]"
  let ?d = "JObj [(''choices'', JArr ?cs [])]"
  have a: "get_prop (deep_clone ?d) ''choices'' = Inr (Some (JArr ?cs []))" by simp
  have b: "(1::nat) < length ?cs" by simp
  have c: "?cs ! 1 \<noteq> JNull" by simp
  have d: "\<not> has_message (?cs ! 1)" by (simp add: has_message_def)
  have e: "list_all well_shaped ?cs" by (simp add: well_shaped_def)
  have f: "list_all has_message (take 1 ?cs)" by (simp add: has_message_def)
  from choice_without_truthy_message [OF a b c d, of 7] a d e f show ?thesis
    by (auto simp: well_shaped_def)
qed

text \<open>A message that is \<^verbatim>\<open>null\<close> counts as no message: in
  \<^verbatim>\<open>{choices: [{message: null}, {}]}\<close> the error of strict mode carries the index 0.\<close>

lemma null_message_counts_as_missing:
  "get_prop (JObj [(''message'', JNull)]) ''message'' = Inr (Some JNull) \<and>
   get_prop (JObj []) ''message'' = Inr None \<and>
   formatLiteLLMResponse
     (JObj [(''choices'', JArr [JObj [(''message'', JNull)], JObj []] [])]) True 0 =
   Inl (NodeOperationError (ChoiceWithoutMessage 0) 0)"
  by (simp add: format_defs)

text \<open>A \<^verbatim>\<open>null\<close> among the choices, or a truthy message that is a number, ends the call with a
  \<^verbatim>\<open>TypeError\<close> in both modes: line 168 reads \<^verbatim>\<open>choice.message\<close> on \<^verbatim>\<open>null\<close>, and line 181
  assigns a property of a number.\<close>

lemma null_choice_raises_TypeError:
  "formatLiteLLMResponse (JObj [(''choices'', JArr [JNull] [])]) strictMode itemIndex =
     Inl TypeError"
  by (simp add: format_defs)

lemma number_message_raises_TypeError:
  "formatLiteLLMResponse (JObj [(''choices'', JArr [JObj [(''message'', JNum 1)]] [])])
     strictMode itemIndex = Inl TypeError"
  by (simp add: format_defs)

text \<open>
  C5. A choice without message: strict mode is to fail with the index of that choice, and
  non-strict mode is to leave the element unchanged and go on to the remaining elements
  without error. In \<^verbatim>\<open>{choices: [{}, null]}\<close> the element 0 is a mapping without
  \<^verbatim>\<open>message\<close>. Strict mode reports it, with index 0. Non-strict mode leaves it and goes on
  to the element 1, where line 168 reads \<^verbatim>\<open>choice.message\<close> on \<^verbatim>\<open>null\<close>: the call ends with a
  \<^verbatim>\<open>TypeError\<close> instead of returning. The code tests for a missing message and not for a
  choice that is \<^verbatim>\<open>null\<close>; \<open>choice_without_truthy_message\<close> above gives what the claim says
  when no choice is \<^verbatim>\<open>null\<close> and every truthy message is an object or an array.
\<close>

theorem null_choice_after_missing_message:
  "get_prop (JObj []) ''message'' = Inr None \<and>
   formatLiteLLMResponse (JObj [(''choices'', JArr [JObj [], JNull] [])]) True itemIndex =
     Inl (NodeOperationError (ChoiceWithoutMessage 0) itemIndex) \<and>
   formatLiteLLMResponse (JObj [(''choices'', JArr [JObj [], JNull] [])]) False itemIndex =
     Inl TypeError"
  by (simp add: format_defs)

text \<open>
  C6. Non-mutation. Whatever \<^verbatim>\<open>formatLiteLLMResponse\<close> returns or throws, every object that
  was in the heap before the call is in it unchanged after, so the input document reads
  as the same JSON as before; and a returned value reaches new objects only: it shares no
  object with the input.
\<close>

theorem input_objects_untouched:
  assumes "formatLiteLLMResponse_h data strictMode itemIndex h = (res, h')"
  shows "take (length h) h' = h \<and>
         (\<forall>t. stringify h [] data = Inr t \<longrightarrow> stringify h' [] data = Inr t) \<and>
         (\<forall>v a. res = Inr v \<longrightarrow> reaches h' v a \<longrightarrow> length h \<le> a \<and> a < length h')"
proof -
  from formatLiteLLMResponse_h_grows [OF assms]
  have g: "grows (length h) h h'" and f: "\<forall>v. res = Inr v \<longrightarrow> fresh_value (length h) h' v"
    by simp_all
  from g have t: "take (length h) h' = h" by (simp add: grows_def)
  from g have c: "closed_from (length h) h'" by (rule grows_closed) (rule closed_from_length)
  from t stringify_extend
  have "\<forall>t. stringify h [] data = Inr t \<longrightarrow> stringify h' [] data = Inr t" by blast
  moreover from c f reaches_fresh
  have "\<forall>v a. res = Inr v \<longrightarrow> reaches h' v a \<longrightarrow> length h \<le> a \<and> a < length h'" by blast
  ultimately show ?thesis using t by simp
qed

theorem input_objects_untouched_witness:
  "formatLiteLLMResponse_h (HRef 3) False 0 sample_heap = (Inr (HRef 7), sample_heap_after) \<and>
   take (length sample_heap) sample_heap_after = sample_heap \<and>
   stringify sample_heap_after [] (HRef 3) = stringify sample_heap [] (HRef 3) \<and>
   reaches sample_heap_after (HRef 7) 7 \<and>
   \<not> reaches sample_heap_after (HRef 7) 3"
proof -
  have r: "formatLiteLLMResponse_h (HRef 3) False 0 sample_heap = (Inr (HRef 7), sample_heap_after)"
    by code_simp
  have s: "stringify sample_heap [] (HRef 3) = Inr scenario_doc"
    by code_simp
  have l: "length sample_heap = 4"
    by (simp add: sample_heap_def)
  from input_objects_untouched [OF r] r s l reaches.here [of sample_heap_after 7]
  show ?thesis by auto
qed

text \<open>The agreement of \<open>store_run_refines\<close>, evaluated: on the sample documents, in both
  modes, the run on the heap ends as the function on values does, with the same error or
  with a value that reads as the same JSON.\<close>

lemma heap_run_agrees:
  "list_all (\<lambda>t. run_on_heap t False 0 = run_on_values t False 0 \<and>
               run_on_heap t True 0 = run_on_values t True 0) sample_documents"
  by code_simp

text \<open>
  C7. Idempotence: when \<^verbatim>\<open>formatLiteLLMResponse\<close> returns \<open>r\<close> for a document, it returns
  \<open>r\<close> again for \<open>r\<close>, under the same strictness.
\<close>

theorem formatLiteLLMResponse_idempotent:
  assumes "formatLiteLLMResponse d s ix = Inr r"
  shows "formatLiteLLMResponse r s ix = Inr r"
proof -
  define c where "c = deep_clone d"
  have jc: "is_json c" by (simp add: c_def is_json_deep_clone)
  show ?thesis
  proof (cases "\<exists>fs cs. c = JObj fs \<and> map_of fs ''choices'' = Some (JArr cs [])")
    case True
    then obtain fs cs where c: "c = JObj fs" and p: "map_of fs ''choices'' = Some (JArr cs [])"
      by blast
    from jc c have fs: "list_all (\<lambda>(k, v). is_json v) fs" by simp
    from p have "(''choices'', JArr cs []) \<in> set fs" by (rule map_of_SomeD)
    with fs have cs: "list_all is_json cs" by (auto simp: list_all_iff)
    from assms c p obtain cs' where cs': "format_choices s ix 0 cs = Inr cs'"
      and r: "r = JObj (AList.update ''choices'' (JArr cs' []) fs)"
      by (auto simp: formatLiteLLMResponse_def c_def [symmetric] split: sum.splits)
    have clone: "deep_clone r = JObj (AList.update ''choices'' (JArr (map deep_clone cs') []) fs)"
      by (simp add: r map_update_values [where f = deep_clone] json_fields_clone [OF fs])
    show ?thesis
      unfolding formatLiteLLMResponse_def clone
      by (simp add: update_conv' format_choices_idem [OF cs cs'] r)
  next
    case False
    have "\<exists>p. get_prop c ''choices'' = Inr p \<and> \<not> (truthy_opt p \<and> isArray (the p))"
    proof (cases c)
      case JNull
      with assms show ?thesis by (simp add: formatLiteLLMResponse_def c_def [symmetric])
    next
      case (JArr xs ps)
      with jc show ?thesis by simp
    next
      case (JObj fs)
      from jc JObj have fs: "list_all (\<lambda>(k, v). is_json v) fs" by simp
      show ?thesis
      proof (cases "map_of fs ''choices''")
        case None
        with JObj show ?thesis by simp
      next
        case (Some v)
        then have "(''choices'', v) \<in> set fs" by (rule map_of_SomeD)
        with fs have "is_json v" by (auto simp: list_all_iff)
        with False JObj Some show ?thesis by (cases v) auto
      qed
    qed simp_all
    then obtain p where p: "get_prop c ''choices'' = Inr p" "\<not> (truthy_opt p \<and> isArray (the p))"
      by blast
    with assms have "r = c" and "\<not> s"
      by (auto simp: formatLiteLLMResponse_def c_def [symmetric] split: if_splits)
    then show ?thesis
      using p deep_clone_json [OF jc] by (auto simp: formatLiteLLMResponse_def)
  qed
qed



theorem formatLiteLLMResponse_idempotent_witness:
  "formatLiteLLMResponse scenario_doc False 0 = Inr scenario_result \<and>
   formatLiteLLMResponse scenario_result False 0 = Inr scenario_result"
proof -
  have r: "formatLiteLLMResponse scenario_doc False 0 = Inr scenario_result"
    by (simp add: format_defs scenario_doc_def scenario_result_def scenario_message_def)
  from formatLiteLLMResponse_idempotent [OF r] r show ?thesis by simp
qed

text \<open>
  C8. Batch policy. With \<^verbatim>\<open>processAllItems\<close> false and a non-empty input, \<^verbatim>\<open>execute\<close>
  processes the first record only, as item 0, and returns its result followed by the
  remaining records, unmodified and in their order (or fails as the first record fails). With
  \<^verbatim>\<open>processAllItems\<close> true the output has one record for each input record, in order, each
  the result of processing that record alone at its index.
\<close>

theorem batch_policy:
  "execute parse inputField outputField False strictMode (x # xs) =
     (case process_item parse inputField outputField strictMode 0 (Some x) of
        Inl e \<Rightarrow> Inl e
      | Inr y \<Rightarrow> Inr [y # xs]) \<and>
   (execute parse inputField outputField True strictMode items = Inr out \<longleftrightarrow>
     (\<exists>ys. out = [ys] \<and> length ys = length items \<and>
        (\<forall>i<length items.
           process_item parse inputField outputField strictMode i (Some (items ! i)) =
             Inr (ys ! i))))"
proof
  show "execute parse inputField outputField False strictMode (x # xs) =
     (case process_item parse inputField outputField strictMode 0 (Some x) of
        Inl e \<Rightarrow> Inl e
      | Inr y \<Rightarrow> Inr [y # xs])"
    by (cases xs) (simp_all add: execute_def split: sum.splits)
next
  show "execute parse inputField outputField True strictMode items = Inr out \<longleftrightarrow>
     (\<exists>ys. out = [ys] \<and> length ys = length items \<and>
        (\<forall>i<length items.
           process_item parse inputField outputField strictMode i (Some (items ! i)) =
             Inr (ys ! i)))" (is "?l \<longleftrightarrow> ?r")
  proof
    assume ?l
    then obtain ys where ys: "process_items parse inputField outputField strictMode 0
        (map Some items) = Inr ys" and out: "out = [ys]"
      by (auto simp: execute_def split: sum.splits)
    from process_items_length [OF ys] process_items_nth [OF ys] out
    show ?r by auto
  next
    assume ?r
    then obtain ys where out: "out = [ys]" and len: "length ys = length (map Some items)"
      and nth: "\<forall>i<length (map Some items).
        process_item parse inputField outputField strictMode (0 + i) (map Some items ! i) =
          Inr (ys ! i)"
      by auto
    from process_items_all [OF len nth] out show ?l by (simp add: execute_def)
  qed
qed


theorem batch_policy_witness:
  "execute scenario_parse ''data'' ''out'' False False
     [\<lparr> json = [(''data'', JObj [])], binary = None, pairedItem = None \<rparr>,
      \<lparr> json = [(''data'', JObj [])], binary = None, pairedItem = None \<rparr>] =
     Inr [[\<lparr> json = [(''data'', JObj []), (''out'', JObj [])], binary = None, pairedItem = None \<rparr>,
           \<lparr> json = [(''data'', JObj [])], binary = None, pairedItem = None \<rparr>]] \<and>
   execute scenario_parse ''data'' ''out'' True False
     [\<lparr> json = [(''data'', JObj [])], binary = None, pairedItem = None \<rparr>,
      \<lparr> json = [(''data'', JObj [])], binary = None, pairedItem = None \<rparr>] =
     Inr [[\<lparr> json = [(''data'', JObj []), (''out'', JObj [])], binary = None, pairedItem = None \<rparr>,
           \<lparr> json = [(''data'', JObj []), (''out'', JObj [])], binary = None, pairedItem = None \<rparr>]]"
proof -
  let ?a = "\<lparr> json = [(''data'', JObj [])], binary = None, pairedItem = None \<rparr>"
  let ?b = "\<lparr> json = [(''data'', JObj []), (''out'', JObj [])], binary = None, pairedItem = None \<rparr>"
  have p: "process_item scenario_parse ''data'' ''out'' False i (Some ?a) = Inr ?b" for i
    by (simp add: process_item_def format_item_def formatLiteLLMResponse_def)
  have "\<exists>ys. [[?b, ?b]] = [ys] \<and> length ys = length [?a, ?a] \<and>
          (\<forall>i<length [?a, ?a].
             process_item scenario_parse ''data'' ''out'' False i (Some ([?a, ?a] ! i)) =
               Inr (ys ! i))"
    using p by (auto simp: less_Suc_eq nth_Cons')
  with batch_policy [of scenario_parse "''data''" "''out''" False ?a "[?a]" "[?a, ?a]" "[[?b, ?b]]"] p
  show ?thesis by simp
qed

text \<open>
  C9, at a record whose \<^verbatim>\<open>pairedItem\<close> is the item index 0: the test
  \<^verbatim>\<open>if (item.pairedItem)\<close> is false for the number 0, and the output record has no
  \<^verbatim>\<open>pairedItem\<close>. The lemma \<open>output_placement\<close> above gives what the claim says for the
  records whose \<^verbatim>\<open>binary\<close> and \<^verbatim>\<open>pairedItem\<close>, when present, are truthy.
\<close>

theorem pairedItem_zero_dropped:
  "execute parse ''data'' ''data'' True False
     [\<lparr> json = [(''data'', JObj [])], binary = None, pairedItem = Some (JNum 0) \<rparr>] =
   Inr [[\<lparr> json = [(''data'', JObj [])], binary = None, pairedItem = None \<rparr>]]"
  by (simp add: execute_defs formatLiteLLMResponse_def)

text \<open>
  C10. On an empty input, \<^verbatim>\<open>execute\<close> with \<^verbatim>\<open>processAllItems\<close> false fails with the wrapped
  error of item 0, and with \<^verbatim>\<open>processAllItems\<close> true returns the empty output.
\<close>

theorem empty_input:
  "execute parse inputField outputField False strictMode [] =
     Inl (NodeOperationError (ErrorProcessingItem 0) 0) \<and>
   execute parse inputField outputField True strictMode [] = Inr [[]]"
  by (simp add: execute_defs)

end
